theory Spec2Isabelle
  imports Complex_Main "HOL-Library.AList"
begin

section \<open>Data\<close>

text \<open>
  The notebook \<^verbatim>\<open>for_ES.ipynb\<close> indexes the question records of a line-delimited JSON
  file into an Elasticsearch index and answers free-text queries against it. Values returned
  by \<^verbatim>\<open>json.loads\<close> are modelled by \<open>json\<close>; a Python \<^verbatim>\<open>dict\<close> with string keys is an
  association list, read with \<open>map_of\<close> and written with \<open>AList.update\<close> (replace the value
  of an existing key, append a new key at the end); a dict has every key once, which no
  property below depends on. Python floats are modelled as reals: ingestion only moves
  vectors around, it never computes with them.
\<close>

datatype json =
    JNull
  | JBool bool
  | JNum real
  | JStr string
  | JArr "json list"
  | JObj "(string \<times> json) list"

type_synonym dict = "(string \<times> json) list"

type_synonym vector = "real list"

text \<open>
  One line of \<^verbatim>\<open>DATA_FILE\<close>, classified by what \<^verbatim>\<open>json.loads(line.strip())\<close> does with
  it: it raises on \<open>Malformed\<close> text and returns the value of a \<open>Parsed\<close> one.
\<close>

datatype line = Malformed | Parsed json

datatype error =
    JSONDecodeError
  | KeyError string
  | TypeError
  | IndexError
  | ZeroDivisionError
  | ProviderError
  | NotFoundError
  | ScriptException

text \<open>The script of a \<^verbatim>\<open>script_score\<close> query, and the query itself.\<close>

datatype script =
    Plus script script
  | CosineSimilarity script script
  | Params string
  | Doc string
  | Lit real

datatype query = MatchAll | ScriptScore query script dict

record search_body =
  size :: nat
  query :: query
  source_includes :: "string list"

text \<open>
  The state of the outside world is the sequence of calls made so far to the two external
  collaborators, oldest first: the Elasticsearch client and the TensorFlow session. Console
  output and the timing measurements are left out.
\<close>

datatype call =
    IndicesDelete string
  | IndicesCreate string string
  | EmbedText "json list"
  | Bulk "dict list"
  | IndicesRefresh string
  | Search string search_body

type_synonym world = "call list"

text \<open>
  The embedding provider: what \<^verbatim>\<open>session.run(embeddings, feed_dict={text_ph: text})\<close>
  followed by \<^verbatim>\<open>tolist\<close> yields for a list of texts: an exception, or a list of vectors
  (of whatever length the provider returns).
\<close>

type_synonym provider = "json list \<Rightarrow> error + vector list"

section \<open>Configuration\<close>

definition INDEX_NAME :: string where
  "INDEX_NAME = ''posts''"

definition SEARCH_SIZE :: nat where
  "SEARCH_SIZE = 5"

text \<open>
  \<^verbatim>\<open>BATCH_SIZE\<close> (1000 in the main script) is a parameter of \<open>index_data\<close> below, a Python
  integer; the stripped contents of \<^verbatim>\<open>INDEX_FILE\<close> is the parameter \<open>source\<close> and the lines of
  \<^verbatim>\<open>DATA_FILE\<close> the parameter \<open>lines\<close> (both files are taken to open).
\<close>

section \<open>Embedding\<close>

definition embed_text :: "provider \<Rightarrow> json list \<Rightarrow> world \<Rightarrow> (error + vector list) \<times> world" where
  "embed_text session_run text w = (session_run text, w @ [EmbedText text])"

section \<open>Indexing\<close>

text \<open>\<^verbatim>\<open>titles = [doc["title"] for doc in docs]\<close>: the first missing key raises.\<close>

fun titles_of :: "dict list \<Rightarrow> error + json list" where
  "titles_of [] = Inr []"
| "titles_of (doc # docs) =
     (case map_of doc ''title'' of
        None \<Rightarrow> Inl (KeyError ''title'')
      | Some t \<Rightarrow> (case titles_of docs of Inl e \<Rightarrow> Inl e | Inr ts \<Rightarrow> Inr (t # ts)))"

text \<open>The three item assignments of the request loop.\<close>

definition make_request :: "dict \<Rightarrow> vector \<Rightarrow> dict" where
  "make_request doc v =
     AList.update ''title_vector'' (JArr (map JNum v))
       (AList.update ''_index'' (JStr INDEX_NAME)
         (AList.update ''_op_type'' (JStr ''index'') doc))"

text \<open>
  \<^verbatim>\<open>for i, doc in enumerate(docs)\<close>, with \<open>i\<close> the running index and \<open>requests\<close> the list
  built so far; \<^verbatim>\<open>title_vectors[i]\<close> raises when the provider returned too few vectors.
\<close>

fun build_requests :: "dict list \<Rightarrow> vector list \<Rightarrow> nat \<Rightarrow> dict list \<Rightarrow> error + dict list" where
  "build_requests [] title_vectors i requests = Inr requests"
| "build_requests (doc # docs) title_vectors i requests =
     (if i < length title_vectors
      then build_requests docs title_vectors (i + 1) (requests @ [make_request doc (title_vectors ! i)])
      else Inl IndexError)"

definition index_batch :: "provider \<Rightarrow> dict list \<Rightarrow> world \<Rightarrow> error option \<times> world" where
  "index_batch session_run docs w =
     (case titles_of docs of
        Inl e \<Rightarrow> (Some e, w)
      | Inr titles \<Rightarrow>
          (case embed_text session_run titles w of
             (Inl e, w1) \<Rightarrow> (Some e, w1)
           | (Inr title_vectors, w1) \<Rightarrow>
               (case build_requests docs title_vectors 0 [] of
                  Inl e \<Rightarrow> (Some e, w1)
                | Inr requests \<Rightarrow> (None, w1 @ [Bulk requests]))))"

text \<open>
  \<^verbatim>\<open>doc["type"]\<close> on the value of a line: only a dict can be subscripted by a string.
\<close>

fun doc_type :: "json \<Rightarrow> error + (dict \<times> json)" where
  "doc_type (JObj d) =
     (case map_of d ''type'' of None \<Rightarrow> Inl (KeyError ''type'') | Some t \<Rightarrow> Inr (d, t))"
| "doc_type _ = Inl TypeError"

text \<open>
  The \<^verbatim>\<open>for line in data_file\<close> loop, with its variables \<open>docs\<close> and \<open>count\<close>. The counter
  starts at 0 and is only ever incremented, so it is a natural number; \<^verbatim>\<open>count % BATCH_SIZE\<close>
  is Python's floored remainder, which is \<open>mod\<close> on \<open>int\<close>, and raises when \<^verbatim>\<open>BATCH_SIZE\<close> is 0.
  An exception leaves the loop with the world as it is at that moment.
\<close>

fun index_loop ::
  "int \<Rightarrow> provider \<Rightarrow> line list \<Rightarrow> dict list \<Rightarrow> nat \<Rightarrow> world \<Rightarrow> error option \<times> dict list \<times> nat \<times> world" where
  "index_loop BATCH_SIZE session_run [] docs count w = (None, docs, count, w)"
| "index_loop BATCH_SIZE session_run (Malformed # rest) docs count w =
     (Some JSONDecodeError, docs, count, w)"
| "index_loop BATCH_SIZE session_run (Parsed j # rest) docs count w =
     (case doc_type j of
        Inl e \<Rightarrow> (Some e, docs, count, w)
      | Inr (doc, t) \<Rightarrow>
          if t \<noteq> JStr ''question'' then index_loop BATCH_SIZE session_run rest docs count w
          else if BATCH_SIZE = 0 then (Some ZeroDivisionError, docs @ [doc], count + 1, w)
          else if int (count + 1) mod BATCH_SIZE = 0 then
            (case index_batch session_run (docs @ [doc]) w of
               (Some e, w1) \<Rightarrow> (Some e, docs @ [doc], count + 1, w1)
             | (None, w1) \<Rightarrow> index_loop BATCH_SIZE session_run rest [] (count + 1) w1)
          else index_loop BATCH_SIZE session_run rest (docs @ [doc]) (count + 1) w)"

definition index_data :: "int \<Rightarrow> provider \<Rightarrow> string \<Rightarrow> line list \<Rightarrow> world \<Rightarrow> error option \<times> world" where
  "index_data BATCH_SIZE session_run source lines w =
     (let w1 = w @ [IndicesDelete INDEX_NAME];
          w2 = w1 @ [IndicesCreate INDEX_NAME source]
      in case index_loop BATCH_SIZE session_run lines [] 0 w2 of
           (Some e, docs, count, w3) \<Rightarrow> (Some e, w3)
         | (None, docs, count, w3) \<Rightarrow>
             if docs \<noteq> [] then
               (case index_batch session_run docs w3 of
                  (Some e, w4) \<Rightarrow> (Some e, w4)
                | (None, w4) \<Rightarrow> (None, w4 @ [IndicesRefresh INDEX_NAME]))
             else (None, w3 @ [IndicesRefresh INDEX_NAME]))"

section \<open>The Record Store\<close>

text \<open>
  Modelled from the spec: the Elasticsearch server is not part of the repository. The spec's
  Record Store offers \<^verbatim>\<open>dropIndex\<close> (no error if absent), \<^verbatim>\<open>createIndex\<close>, \<^verbatim>\<open>bulkUpsert\<close>
  (index operations, the store assigning the ids), \<^verbatim>\<open>refresh\<close> and \<^verbatim>\<open>scoreQuery\<close>
  (every record scored by the formula, the top \<open>k\<close> by descending score returned with id,
  score and the selected fields). A store maps an index name to its records in the order
  they were written; the position of a record stands for the id the store assigns. The
  bulk helper routes a request by its \<^verbatim>\<open>_index\<close> entry and does not store the two action
  entries \<^verbatim>\<open>_op_type\<close> and \<^verbatim>\<open>_index\<close>. The store never fails on a write.
\<close>

type_synonym store = "string \<Rightarrow> dict list option"

definition stored_source :: "dict \<Rightarrow> dict" where
  "stored_source request = AList.delete ''_op_type'' (AList.delete ''_index'' request)"

definition bulk_item :: "dict \<Rightarrow> store \<Rightarrow> store" where
  "bulk_item request s =
     (case map_of request ''_index'' of
        Some (JStr name) \<Rightarrow>
          s(name \<mapsto> (case s name of None \<Rightarrow> [] | Some items \<Rightarrow> items) @ [stored_source request])
      | _ \<Rightarrow> s)"

fun store_step :: "call \<Rightarrow> store \<Rightarrow> store" where
  "store_step (IndicesDelete name) s = s(name := None)"
| "store_step (IndicesCreate name source) s = s(name \<mapsto> [])"
| "store_step (Bulk requests) s = fold bulk_item requests s"
| "store_step _ s = s"

definition record_store :: "world \<Rightarrow> store" where
  "record_store w = fold store_step w (\<lambda>name. None)"

text \<open>
  Modelled from the spec: the scoring query. The built-in \<^verbatim>\<open>cosineSimilarity\<close> of the
  store's script language is a parameter \<open>cs\<close>; it is applied to two vectors of equal
  length, anything else is a script error.
\<close>

datatype val = Num real | Vec vector

fun nums_of :: "json list \<Rightarrow> vector option" where
  "nums_of [] = Some []"
| "nums_of (JNum r # js) = map_option ((#) r) (nums_of js)"
| "nums_of (_ # js) = None"

fun val_of_json :: "json \<Rightarrow> val option" where
  "val_of_json (JNum r) = Some (Num r)"
| "val_of_json (JArr js) = map_option Vec (nums_of js)"
| "val_of_json _ = None"

fun eval_script :: "(vector \<Rightarrow> vector \<Rightarrow> real) \<Rightarrow> dict \<Rightarrow> dict \<Rightarrow> script \<Rightarrow> val option" where
  "eval_script cs ps d (Lit r) = Some (Num r)"
| "eval_script cs ps d (Params k) = (case map_of ps k of None \<Rightarrow> None | Some j \<Rightarrow> val_of_json j)"
| "eval_script cs ps d (Doc k) = (case map_of d k of None \<Rightarrow> None | Some j \<Rightarrow> val_of_json j)"
| "eval_script cs ps d (Plus a b) =
     (case (eval_script cs ps d a, eval_script cs ps d b) of
        (Some (Num x), Some (Num y)) \<Rightarrow> Some (Num (x + y))
      | _ \<Rightarrow> None)"
| "eval_script cs ps d (CosineSimilarity a b) =
     (case (eval_script cs ps d a, eval_script cs ps d b) of
        (Some (Vec x), Some (Vec y)) \<Rightarrow> if length x = length y then Some (Num (cs x y)) else None
      | _ \<Rightarrow> None)"

fun query_matches :: "query \<Rightarrow> dict \<Rightarrow> bool" where
  "query_matches MatchAll d = True"
| "query_matches (ScriptScore q sc ps) d = query_matches q d"

fun query_score :: "(vector \<Rightarrow> vector \<Rightarrow> real) \<Rightarrow> query \<Rightarrow> dict \<Rightarrow> real option" where
  "query_score cs MatchAll d = Some 1"
| "query_score cs (ScriptScore q sc ps) d =
     (case eval_script cs ps d sc of Some (Num x) \<Rightarrow> Some x | _ \<Rightarrow> None)"

datatype hit = Hit (hit_id: nat) (hit_score: real) (hit_source: dict)

fun score_hits :: "(vector \<Rightarrow> vector \<Rightarrow> real) \<Rightarrow> search_body \<Rightarrow> dict list \<Rightarrow> nat \<Rightarrow> hit list option" where
  "score_hits cs body [] i = Some []"
| "score_hits cs body (d # ds) i =
     (if query_matches (query body) d then
        (case query_score cs (query body) d of
           None \<Rightarrow> None
         | Some x \<Rightarrow>
             map_option ((#) (Hit i x (AList.restrict (set (source_includes body)) d)))
               (score_hits cs body ds (i + 1)))
      else score_hits cs body ds (i + 1))"

definition client_search ::
  "(vector \<Rightarrow> vector \<Rightarrow> real) \<Rightarrow> store \<Rightarrow> string \<Rightarrow> search_body \<Rightarrow> error + hit list" where
  "client_search cs s name body =
     (case s name of
        None \<Rightarrow> Inl NotFoundError
      | Some items \<Rightarrow>
          (case score_hits cs body items 0 of
             None \<Rightarrow> Inl ScriptException
           | Some hits \<Rightarrow> Inr (take (size body) (sort_key (\<lambda>h. - hit_score h) hits))))"

section \<open>Searching\<close>

text \<open>
  The script source of \<open>handle_query\<close> is the text
  \<^verbatim>\<open>cosineSimilarity(params.query_vector, doc['title_vector']) + 1.0\<close>.
\<close>

definition script_source :: script where
  "script_source = Plus (CosineSimilarity (Params ''query_vector'') (Doc ''title_vector'')) (Lit 1.0)"

text \<open>
  \<open>handle_query\<close> for the text read from the console; its result is the list of hits it
  prints, each with the id, the score and the source the store returned.
\<close>

definition handle_query ::
  "provider \<Rightarrow> (vector \<Rightarrow> vector \<Rightarrow> real) \<Rightarrow> string \<Rightarrow> world \<Rightarrow> (error + hit list) \<times> world" where
  "handle_query session_run cs query_text w =
     (case embed_text session_run [JStr query_text] w of
        (Inl e, w1) \<Rightarrow> (Inl e, w1)
      | (Inr [], w1) \<Rightarrow> (Inl IndexError, w1)
      | (Inr (query_vector # _), w1) \<Rightarrow>
          (let script_query =
                 ScriptScore MatchAll script_source [(''query_vector'', JArr (map JNum query_vector))];
               body = \<lparr>size = SEARCH_SIZE, query = script_query,
                       source_includes = [''title'', ''body'']\<rparr>
           in case client_search cs (record_store w1) INDEX_NAME body of
                Inl e \<Rightarrow> (Inl e, w1 @ [Search INDEX_NAME body])
              | Inr hits \<Rightarrow> (Inr hits, w1 @ [Search INDEX_NAME body])))"

section \<open>Notions used by the properties\<close>

text \<open>
  In the statements below \<open>B\<close> stands for \<^verbatim>\<open>BATCH_SIZE\<close>, \<open>p\<close> for the embedding provider,
  \<open>s\<close> for the contents of the index file, \<open>w\<close> for the calls made before the run and
  \<open>cs\<close> for the store's \<^verbatim>\<open>cosineSimilarity\<close>.
\<close>

text \<open>
  The dicts of the lines whose \<^verbatim>\<open>type\<close> is \<^verbatim>\<open>"question"\<close>, in stream order: the records
  the ingestion keeps.
\<close>

fun question_docs :: "line list \<Rightarrow> dict list" where
  "question_docs [] = []"
| "question_docs (Parsed (JObj d) # ls) =
     (if map_of d ''type'' = Some (JStr ''question'') then d # question_docs ls
      else question_docs ls)"
| "question_docs (_ # ls) = question_docs ls"

text \<open>The batches handed to \<^verbatim>\<open>bulk\<close>, and the lists of texts handed to the provider.\<close>

fun bulks :: "world \<Rightarrow> dict list list" where
  "bulks [] = []"
| "bulks (Bulk requests # w) = requests # bulks w"
| "bulks (_ # w) = bulks w"

fun embeds :: "world \<Rightarrow> json list list" where
  "embeds [] = []"
| "embeds (EmbedText text # w) = text # embeds w"
| "embeds (_ # w) = embeds w"

text \<open>
  A source record of type Question (with the title the data model requires of it), and one
  of type Answer.
\<close>

fun question_record :: "line \<Rightarrow> bool" where
  "question_record (Parsed (JObj d)) =
     (map_of d ''type'' = Some (JStr ''question'') \<and> map_of d ''title'' \<noteq> None)"
| "question_record _ = False"

fun answer_record :: "line \<Rightarrow> bool" where
  "answer_record (Parsed (JObj d)) = (map_of d ''type'' = Some (JStr ''answer''))"
| "answer_record _ = False"

section \<open>Lists and arithmetic\<close>

lemma int_mod_eq_0:
  "0 < B \<Longrightarrow> (int n mod B = 0) = (n mod nat B = 0)"
  by (metis int_nat_eq of_nat_eq_0_iff zmod_int less_le)

lemma length_concat_same:
  "\<forall>x\<in>set bs. length x = n \<Longrightarrow> length (concat bs) = length bs * n"
  by (induction bs) auto

lemma map_length_same:
  "\<forall>x\<in>set bs. length x = n \<Longrightarrow> map length bs = replicate (length bs) n"
  by (induction bs) auto

lemma Nil_notin_iff: "[] \<notin> set xs \<longleftrightarrow> 0 \<notin> set (map length xs)"
  by (induction xs) auto

lemma butlast_sizes:
  "x \<in> set (butlast (replicate k n @ (if m = 0 then [] else [m]))) \<Longrightarrow> x = n"
  by (cases "m = 0") (auto simp: butlast_append dest: in_set_butlastD)

lemma Suc_div_self: "1 < (n::nat) \<Longrightarrow> Suc n div n = 1 \<and> Suc n mod n = 1"
proof -
  assume n: "1 < n"
  have "(n + 1) div n = 1 div n + 1" by (rule div_add_self1) (use n in simp)
  moreover have "(n + 1) mod n = 1 mod n" by (rule mod_add_self1)
  ultimately show ?thesis using n by simp
qed

lemma list_all2_setD:
  "list_all2 P xs ys \<Longrightarrow> x \<in> set xs \<Longrightarrow> \<exists>y\<in>set ys. P x y"
  by (induction rule: list_all2_induct) auto

lemma sorted_take_drop_le:
  assumes "sorted (map f xs)" and "x \<in> set (take n xs)" and "y \<in> set (drop n xs)"
  shows "f x \<le> f y"
proof -
  have "sorted (map f (take n xs) @ map f (drop n xs))"
    using assms(1) by (simp flip: map_append)
  with assms(2,3) show ?thesis
    by (auto simp: sorted_append)
qed

section \<open>Facts about flushing a batch\<close>

lemma titles_of_Inr:
  "titles_of docs = Inr ts \<Longrightarrow> list_all2 (\<lambda>d t. map_of d ''title'' = Some t) docs ts"
  by (induction docs arbitrary: ts) (auto split: option.splits sum.splits)

lemma titles_of_length: "titles_of docs = Inr ts \<Longrightarrow> length ts = length docs"
  by (drule titles_of_Inr) (simp add: list_all2_lengthD)

lemma build_requests_eq:
  "build_requests docs tv i acc =
     (if length docs \<le> length tv - i
      then Inr (acc @ map2 make_request docs (drop i tv))
      else Inl IndexError)"
proof (induction docs arbitrary: i acc)
  case Nil
  show ?case by simp
next
  case (Cons d ds)
  show ?case
  proof (cases "i < length tv")
    case True
    then have "drop i tv = tv ! i # drop (Suc i) tv"
      by (simp add: Cons_nth_drop_Suc)
    with True Cons.IH [of "Suc i"] show ?thesis by auto
  next
    case False
    then show ?thesis by simp
  qed
qed

lemma index_batch_eq:
  "index_batch p docs w =
     (case titles_of docs of
        Inl e \<Rightarrow> (Some e, w)
      | Inr ts \<Rightarrow>
          (case p ts of
             Inl e \<Rightarrow> (Some e, w @ [EmbedText ts])
           | Inr vs \<Rightarrow>
               if length docs \<le> length vs
               then (None, w @ [EmbedText ts, Bulk (map2 make_request docs vs)])
               else (Some IndexError, w @ [EmbedText ts])))"
  by (simp add: index_batch_def embed_text_def build_requests_eq split: sum.splits)

lemma map_of_make_request:
  "map_of (make_request d v) k =
     (if k = ''title_vector'' then Some (JArr (map JNum v))
      else if k = ''_index'' then Some (JStr INDEX_NAME)
      else if k = ''_op_type'' then Some (JStr ''index'')
      else map_of d k)"
  by (simp add: make_request_def AList.update_conv')

lemma index_batch_calls:
  "c \<in> set (snd (index_batch p b [])) \<Longrightarrow> (\<exists>ts. c = EmbedText ts) \<or> (\<exists>rs. c = Bulk rs)"
  by (auto simp: index_batch_eq split: sum.splits if_splits)

lemma index_batch_frame:
  "index_batch p docs w = (fst (index_batch p docs []), w @ snd (index_batch p docs []))"
  by (simp add: index_batch_eq split: sum.splits)

section \<open>Facts about the loop over the lines\<close>

lemma doc_type_Inr:
  "doc_type j = Inr (d, t) \<Longrightarrow> j = JObj d \<and> map_of d ''type'' = Some t"
  by (cases j) (auto split: option.splits)

lemma question_docs_Parsed:
  "doc_type j = Inr (d, t) \<Longrightarrow>
     question_docs (Parsed j # ls) = (if t = JStr ''question'' then d # question_docs ls else question_docs ls)"
  by (auto dest: doc_type_Inr)

lemma index_loop_success:
  assumes "0 < B"
    and "index_loop B p lines docs count w = (None, docs', count', w')"
    and "length docs = count mod nat B"
  shows "\<exists>batches. w' = w @ concat (map (\<lambda>b. snd (index_batch p b [])) batches)
          \<and> (\<forall>b\<in>set batches. fst (index_batch p b []) = None \<and> length b = nat B)
          \<and> concat batches @ docs' = docs @ question_docs lines
          \<and> count' = count + length (question_docs lines)
          \<and> length docs' = count' mod nat B"
  using assms(2,3)
proof (induction lines arbitrary: docs count w)
  case Nil
  then show ?case by (intro exI [of _ "[]"]) simp
next
  case (Cons l ls)
  show ?case
  proof (cases l)
    case Malformed
    with Cons.prems show ?thesis by simp
  next
    case (Parsed j)
    show ?thesis
    proof (cases "doc_type j")
      case (Inl e)
      with Parsed Cons.prems show ?thesis by simp
    next
      case (Inr dt)
      obtain d t where dt: "dt = (d, t)" by (cases dt)
      note qd = question_docs_Parsed [OF Inr [unfolded dt], of ls]
      show ?thesis
      proof (cases "t = JStr ''question''")
        case False
        with Parsed Inr dt Cons.prems
        have "index_loop B p ls docs count w = (None, docs', count', w')" by simp
        from Cons.IH [OF this Cons.prems(2)] show ?thesis
          using False Parsed qd by simp
      next
        case True
        have B0: "B \<noteq> 0" using assms(1) by simp
        show ?thesis
        proof (cases "Suc count mod nat B = 0")
          case flush: True
          then have len: "length (docs @ [d]) = nat B"
            using Cons.prems(2) assms(1) by (auto simp: mod_Suc split: if_splits)
          obtain rb wb where ib: "index_batch p (docs @ [d]) [] = (rb, wb)"
            by (cases "index_batch p (docs @ [d]) []")
          then have ibw: "index_batch p (docs @ [d]) w = (rb, w @ wb)"
            using index_batch_frame [of p "docs @ [d]" w] by simp
          from Cons.prems(1) Parsed Inr dt True B0 flush ibw
          have rb: "rb = None"
            and run: "index_loop B p ls [] (Suc count) (w @ wb) = (None, docs', count', w')"
            by (auto simp: int_mod_eq_0 [OF assms(1), of "Suc count", simplified] split: option.splits)
          from Cons.IH [OF run] flush
          obtain batches where b:
            "w' = (w @ wb) @ concat (map (\<lambda>b. snd (index_batch p b [])) batches)"
            "\<forall>b\<in>set batches. fst (index_batch p b []) = None \<and> length b = nat B"
            "concat batches @ docs' = [] @ question_docs ls"
            "count' = Suc count + length (question_docs ls)"
            "length docs' = count' mod nat B"
            by auto
          show ?thesis
            using b ib rb len True Parsed qd
            by (intro exI [of _ "(docs @ [d]) # batches"]) simp
        next
          case noflush: False
          from Cons.prems(1) Parsed Inr dt True B0 noflush
          have run: "index_loop B p ls (docs @ [d]) (Suc count) w = (None, docs', count', w')"
            by (auto simp: int_mod_eq_0 [OF assms(1), of "Suc count", simplified])
          have "length (docs @ [d]) = Suc count mod nat B"
            using Cons.prems(2) noflush by (auto simp: mod_Suc split: if_splits)
          from Cons.IH [OF run this] show ?thesis
            using True Parsed qd by simp
        qed
      qed
    qed
  qed
qed

lemma index_loop_frame:
  "index_loop B p lines docs count w =
     (case index_loop B p lines docs count [] of (r, ds, c, evs) \<Rightarrow> (r, ds, c, w @ evs))"
proof (induction lines arbitrary: docs count w)
  case Nil
  show ?case by simp
next
  case (Cons l ls)
  show ?case
  proof (cases l)
    case Malformed
    then show ?thesis by simp
  next
    case (Parsed j)
    show ?thesis
    proof (cases "doc_type j")
      case (Inl e)
      with Parsed show ?thesis by simp
    next
      case (Inr dt)
      obtain d t where dt: "dt = (d, t)" by (cases dt)
      obtain rb wb where ib: "index_batch p (docs @ [d]) [] = (rb, wb)"
        by (cases "index_batch p (docs @ [d]) []")
      then have ibw: "index_batch p (docs @ [d]) w = (rb, w @ wb)"
        using index_batch_frame [of p "docs @ [d]" w] by simp
      have rec: "index_loop B p ls [] (count + 1) (w @ wb) =
          (case index_loop B p ls [] (count + 1) wb of (r, ds, c, evs) \<Rightarrow> (r, ds, c, w @ evs))"
        using Cons.IH [of "[]" "count + 1" "w @ wb"] Cons.IH [of "[]" "count + 1" wb]
        by (simp split: prod.splits)
      show ?thesis
        using Parsed Inr dt ib ibw rec Cons.IH [of docs count w] Cons.IH [of "docs @ [d]" "count + 1" w]
        by (simp split: option.splits)
    qed
  qed
qed

lemma index_data_frame:
  "index_data B p s lines w =
     (fst (index_data B p s lines []), w @ snd (index_data B p s lines []))"
proof -
  let ?c = "[IndicesDelete INDEX_NAME, IndicesCreate INDEX_NAME s]"
  obtain r ds c evs where l0: "index_loop B p lines [] 0 [] = (r, ds, c, evs)"
    by (metis prod_cases4)
  have l1: "index_loop B p lines [] 0 ?c = (r, ds, c, ?c @ evs)"
    using index_loop_frame [of B p lines "[]" 0 ?c] l0 by simp
  have l2: "index_loop B p lines [] 0 (w @ ?c) = (r, ds, c, w @ ?c @ evs)"
    using index_loop_frame [of B p lines "[]" 0 "w @ ?c"] l0 by simp
  obtain rb wb where ib: "index_batch p ds [] = (rb, wb)"
    by (cases "index_batch p ds []")
  have ib1: "index_batch p ds (?c @ evs) = (rb, ?c @ evs @ wb)"
    using index_batch_frame [of p ds "?c @ evs"] ib by simp
  have ib2: "index_batch p ds (w @ ?c @ evs) = (rb, w @ ?c @ evs @ wb)"
    using index_batch_frame [of p ds "w @ ?c @ evs"] ib by simp
  show ?thesis
    using l1 l2 ib1 ib2 by (simp add: index_data_def split: option.splits)
qed

lemma index_loop_run:
  assumes "index_loop B p lines docs count w = (r, docs', count', w')"
  shows "\<exists>batches tail. w' = w @ concat (map (\<lambda>b. snd (index_batch p b [])) batches) @ tail
          \<and> (\<forall>b\<in>set batches. b \<noteq> [] \<and> fst (index_batch p b []) = None
                \<and> set b \<subseteq> set docs \<union> set (question_docs lines))
          \<and> (r = None \<longrightarrow> tail = [] \<and> set docs' \<subseteq> set docs \<union> set (question_docs lines))
          \<and> (\<forall>e. r = Some e \<longrightarrow> tail = [] \<or>
                (\<exists>b. b \<noteq> [] \<and> set b \<subseteq> set docs \<union> set (question_docs lines)
                    \<and> index_batch p b [] = (Some e, tail)))"
  using assms
proof (induction lines arbitrary: docs count w)
  case Nil
  then show ?case by (intro exI [of _ "[]"]) simp
next
  case (Cons l ls)
  show ?case
  proof (cases l)
    case Malformed
    with Cons.prems show ?thesis by (intro exI [of _ "[]"]) simp
  next
    case (Parsed j)
    show ?thesis
    proof (cases "doc_type j")
      case (Inl e)
      with Parsed Cons.prems show ?thesis by (intro exI [of _ "[]"]) simp
    next
      case (Inr dt)
      obtain d t where dt: "dt = (d, t)" by (cases dt)
      note qd = question_docs_Parsed [OF Inr [unfolded dt], of ls]
      show ?thesis
      proof (cases "t = JStr ''question''")
        case False
        with Parsed Inr dt Cons.prems
        have "index_loop B p ls docs count w = (r, docs', count', w')" by simp
        from Cons.IH [OF this] show ?thesis
          using False Parsed qd by simp
      next
        case True
        note q = True
        show ?thesis
        proof (cases "B = 0")
          case True
          with Cons.prems Parsed Inr dt q show ?thesis
            by (intro exI [of _ "[]"]) auto
        next
          case B0: False
          show ?thesis
          proof (cases "int (count + 1) mod B = 0")
            case flush: True
            obtain rb wb where ib: "index_batch p (docs @ [d]) [] = (rb, wb)"
              by (cases "index_batch p (docs @ [d]) []")
            then have ibw: "index_batch p (docs @ [d]) w = (rb, w @ wb)"
              using index_batch_frame [of p "docs @ [d]" w] by simp
            show ?thesis
            proof (cases rb)
              case (Some e)
              with Cons.prems Parsed Inr dt q B0 flush ibw
              have "r = Some e" "w' = w @ wb" by auto
              moreover have "\<exists>b. b \<noteq> [] \<and> set b \<subseteq> set docs \<union> set (question_docs (l # ls))
                    \<and> index_batch p b [] = (Some e, wb)"
                using ib Some q Parsed qd by (intro exI [of _ "docs @ [d]"]) auto
              ultimately show ?thesis
                by (intro exI [of _ "[]"] exI [of _ wb]) simp
            next
              case None
              with Cons.prems Parsed Inr dt q B0 flush ibw
              have run: "index_loop B p ls [] (count + 1) (w @ wb) = (r, docs', count', w')"
                by auto
              from Cons.IH [OF run]
              obtain batches tail where b:
                "w' = (w @ wb) @ concat (map (\<lambda>b. snd (index_batch p b [])) batches) @ tail"
                "\<forall>b\<in>set batches. b \<noteq> [] \<and> fst (index_batch p b []) = None
                    \<and> set b \<subseteq> set (question_docs ls)"
                "r = None \<longrightarrow> tail = [] \<and> set docs' \<subseteq> set (question_docs ls)"
                "\<forall>e. r = Some e \<longrightarrow> tail = [] \<or>
                    (\<exists>b. b \<noteq> [] \<and> set b \<subseteq> set (question_docs ls)
                        \<and> index_batch p b [] = (Some e, tail))"
                by auto
              have sub: "set (question_docs ls) \<subseteq> set docs \<union> set (question_docs (l # ls))"
                using q Parsed qd by auto
              have d_in: "set (docs @ [d]) \<subseteq> set docs \<union> set (question_docs (l # ls))"
                using q Parsed qd by auto
              show ?thesis
                apply (intro exI [of _ "(docs @ [d]) # batches"] exI [of _ tail] conjI)
                subgoal using b(1) ib by simp
                subgoal using b(2) ib None sub d_in by auto
                subgoal using b(3) sub by auto
                subgoal using b(4) sub by blast
                done
            qed
          next
            case noflush: False
            from Cons.prems Parsed Inr dt q B0 noflush
            have run: "index_loop B p ls (docs @ [d]) (count + 1) w = (r, docs', count', w')"
              by auto
            from Cons.IH [OF run]
            obtain batches tail where b:
              "w' = w @ concat (map (\<lambda>b. snd (index_batch p b [])) batches) @ tail"
              "\<forall>b\<in>set batches. b \<noteq> [] \<and> fst (index_batch p b []) = None
                  \<and> set b \<subseteq> set (docs @ [d]) \<union> set (question_docs ls)"
              "r = None \<longrightarrow> tail = [] \<and> set docs' \<subseteq> set (docs @ [d]) \<union> set (question_docs ls)"
              "\<forall>e. r = Some e \<longrightarrow> tail = [] \<or>
                  (\<exists>b. b \<noteq> [] \<and> set b \<subseteq> set (docs @ [d]) \<union> set (question_docs ls)
                      \<and> index_batch p b [] = (Some e, tail))"
              by auto
            have eq: "set (docs @ [d]) \<union> set (question_docs ls) = set docs \<union> set (question_docs (l # ls))"
              using q Parsed qd by auto
            show ?thesis
              using b unfolding eq by blast
          qed
        qed
      qed
    qed
  qed
qed

lemma bulks_append: "bulks (a @ b) = bulks a @ bulks b"
  by (induction a rule: bulks.induct) auto

lemma embeds_append: "embeds (a @ b) = embeds a @ embeds b"
  by (induction a rule: embeds.induct) auto

lemma index_batch_None:
  assumes "fst (index_batch p b []) = None"
  shows "\<exists>ts vs. titles_of b = Inr ts \<and> p ts = Inr vs \<and> length b \<le> length vs
           \<and> snd (index_batch p b []) = [EmbedText ts, Bulk (map2 make_request b vs)]"
  using assms by (auto simp: index_batch_eq split: sum.splits if_splits)

lemma index_batch_Some:
  assumes "index_batch p b [] = (Some e, tail)"
  shows "tail = [] \<or>
         (\<exists>ts. titles_of b = Inr ts \<and> tail = [EmbedText ts] \<and>
            (p ts = Inl e \<or> (\<exists>vs. p ts = Inr vs \<and> length vs < length b \<and> e = IndexError)))"
  using assms by (auto simp: index_batch_eq split: sum.splits if_splits)

lemma index_data_run:
  assumes "index_data B p s lines w = (r, w')"
  shows "\<exists>batches tail.
      w' = w @ [IndicesDelete INDEX_NAME, IndicesCreate INDEX_NAME s]
             @ concat (map (\<lambda>b. snd (index_batch p b [])) batches) @ tail
    \<and> (\<forall>b\<in>set batches. b \<noteq> [] \<and> fst (index_batch p b []) = None
          \<and> set b \<subseteq> set (question_docs lines))
    \<and> (r = None \<longrightarrow> tail = [IndicesRefresh INDEX_NAME])
    \<and> (\<forall>e. r = Some e \<longrightarrow> tail = [] \<or>
          (\<exists>b. b \<noteq> [] \<and> set b \<subseteq> set (question_docs lines)
              \<and> index_batch p b [] = (Some e, tail)))"
proof -
  let ?w2 = "(w @ [IndicesDelete INDEX_NAME]) @ [IndicesCreate INDEX_NAME s]"
  let ?flush = "\<lambda>b. snd (index_batch p b [])"
  obtain rl docs count w3 where loop: "index_loop B p lines [] 0 ?w2 = (rl, docs, count, w3)"
    by (metis prod_cases4)
  from index_loop_run [OF loop]
  obtain batches tail where b:
    "w3 = ?w2 @ concat (map ?flush batches) @ tail"
    "\<forall>b\<in>set batches. b \<noteq> [] \<and> fst (index_batch p b []) = None
        \<and> set b \<subseteq> set (question_docs lines)"
    "rl = None \<longrightarrow> tail = [] \<and> set docs \<subseteq> set (question_docs lines)"
    "\<forall>e. rl = Some e \<longrightarrow> tail = [] \<or>
        (\<exists>b. b \<noteq> [] \<and> set b \<subseteq> set (question_docs lines)
            \<and> index_batch p b [] = (Some e, tail))"
    by auto
  show ?thesis
  proof (cases rl)
    case (Some e)
    with assms loop have "r = Some e" "w' = w3"
      by (auto simp: index_data_def)
    with b Some show ?thesis
      by (intro exI [of _ batches] exI [of _ tail]) simp
  next
    case None
    with b have tail: "tail = []" and sub: "set docs \<subseteq> set (question_docs lines)"
      by auto
    show ?thesis
    proof (cases "docs = []")
      case True
      with assms loop None have "r = None" "w' = w3 @ [IndicesRefresh INDEX_NAME]"
        by (auto simp: index_data_def)
      with b tail show ?thesis
        by (intro exI [of _ batches] exI [of _ "[IndicesRefresh INDEX_NAME]"]) simp
    next
      case False
      obtain rb wb where ib: "index_batch p docs [] = (rb, wb)"
        by (cases "index_batch p docs []")
      then have ibw: "index_batch p docs w3 = (rb, w3 @ wb)"
        using index_batch_frame [of p docs w3] by simp
      show ?thesis
      proof (cases rb)
        case (Some e)
        with assms loop None False ibw have "r = Some e" "w' = w3 @ wb"
          by (auto simp: index_data_def)
        moreover have "\<exists>b. b \<noteq> [] \<and> set b \<subseteq> set (question_docs lines)
              \<and> index_batch p b [] = (Some e, wb)"
          using ib Some False sub by (intro exI [of _ docs]) simp
        ultimately show ?thesis
          using b tail by (intro exI [of _ batches] exI [of _ wb]) simp
      next
        case rbNone: None
        with assms loop None False ibw
        have "r = None" "w' = w3 @ wb @ [IndicesRefresh INDEX_NAME]"
          by (auto simp: index_data_def)
        then show ?thesis
          using b tail ib rbNone False sub
          by (intro exI [of _ "batches @ [docs]"] exI [of _ "[IndicesRefresh INDEX_NAME]"]) auto
      qed
    qed
  qed
qed

lemma index_data_success:
  assumes "0 < B" and "index_data B p s lines w = (None, w')"
  shows "\<exists>batches.
      w' = w @ [IndicesDelete INDEX_NAME, IndicesCreate INDEX_NAME s]
             @ concat (map (\<lambda>b. snd (index_batch p b [])) batches)
             @ [IndicesRefresh INDEX_NAME]
    \<and> (\<forall>b\<in>set batches. fst (index_batch p b []) = None)
    \<and> concat batches = question_docs lines
    \<and> map length batches =
        replicate (length (question_docs lines) div nat B) (nat B)
        @ (if length (question_docs lines) mod nat B = 0 then []
           else [length (question_docs lines) mod nat B])"
proof -
  let ?w2 = "(w @ [IndicesDelete INDEX_NAME]) @ [IndicesCreate INDEX_NAME s]"
  let ?flush = "\<lambda>b. snd (index_batch p b [])"
  let ?N = "length (question_docs lines)"
  obtain rl docs count w3 where loop: "index_loop B p lines [] 0 ?w2 = (rl, docs, count, w3)"
    by (metis prod_cases4)
  with assms(2) have rl: "rl = None"
    by (auto simp: index_data_def split: option.splits)
  from index_loop_success [OF assms(1) loop [unfolded rl]]
  obtain batches where b:
    "w3 = ?w2 @ concat (map ?flush batches)"
    "\<forall>b\<in>set batches. fst (index_batch p b []) = None \<and> length b = nat B"
    "concat batches @ docs = question_docs lines"
    "length docs = ?N mod nat B"
    by auto
  have "?N = length batches * nat B + ?N mod nat B"
    using b(2,3,4) length_concat_same [of batches "nat B"]
    by (metis length_append)
  then have k: "length batches = ?N div nat B"
    using assms(1)
    by (metis add_diff_cancel_right' minus_mod_eq_div_mult
        nonzero_mult_div_cancel_right zero_less_nat_eq less_numeral_extra(3))
  have sizes: "map length batches = replicate (?N div nat B) (nat B)"
    using b(2) map_length_same [of batches "nat B"] k by simp
  show ?thesis
  proof (cases "docs = []")
    case True
    with assms(2) loop rl have "w' = w3 @ [IndicesRefresh INDEX_NAME]"
      by (auto simp: index_data_def)
    with b sizes True show ?thesis
      by (intro exI [of _ batches]) auto
  next
    case False
    obtain rb wb where ib: "index_batch p docs [] = (rb, wb)"
      by (cases "index_batch p docs []")
    then have ibw: "index_batch p docs w3 = (rb, w3 @ wb)"
      using index_batch_frame [of p docs w3] by simp
    with assms(2) loop rl False
    have "rb = None" "w' = w3 @ wb @ [IndicesRefresh INDEX_NAME]"
      by (auto simp: index_data_def split: option.splits)
    moreover have "?N mod nat B \<noteq> 0"
      using False b(4) by (metis length_0_conv)
    moreover have "concat (batches @ [docs]) = question_docs lines"
      using b(3) by simp
    moreover have "map length (batches @ [docs]) =
        replicate (?N div nat B) (nat B) @ [?N mod nat B]"
      using sizes b(4) by simp
    ultimately show ?thesis
      using b(1,2) ib by (intro exI [of _ "batches @ [docs]"]) auto
  qed
qed

lemma index_loop_append:
  "index_loop B p (xs @ ys) docs count w =
     (case index_loop B p xs docs count w of
        (None, ds, c, w1) \<Rightarrow> index_loop B p ys ds c w1
      | (Some e, ds, c, w1) \<Rightarrow> (Some e, ds, c, w1))"
proof (induction xs arbitrary: docs count w)
  case Nil
  show ?case by simp
next
  case (Cons l ls)
  show ?case
  proof (cases l)
    case Malformed
    then show ?thesis by simp
  next
    case (Parsed j)
    show ?thesis
    proof (cases "doc_type j")
      case (Inl e)
      with Parsed show ?thesis by simp
    next
      case (Inr dt)
      obtain d t where dt: "dt = (d, t)" by (cases dt)
      obtain rb wb where ib: "index_batch p (docs @ [d]) w = (rb, wb)"
        by (cases "index_batch p (docs @ [d]) w")
      show ?thesis
        using Parsed Inr dt ib Cons.IH [of docs count w] Cons.IH [of "docs @ [d]" "count + 1" w]
          Cons.IH [of "[]" "count + 1" wb]
        by (cases rb) simp_all
    qed
  qed
qed

lemma index_loop_Malformed:
  "index_loop B p (pre @ Malformed # post) docs count w = index_loop B p (pre @ [Malformed]) docs count w
   \<and> fst (index_loop B p (pre @ Malformed # post) docs count w) \<noteq> None"
  by (simp add: index_loop_append split: prod.splits option.splits)

lemma titles_of_total:
  "\<forall>d\<in>set b. map_of d ''title'' \<noteq> None \<Longrightarrow> \<exists>ts. titles_of b = Inr ts"
  by (induction b) auto

lemma index_batch_completes:
  assumes "\<forall>d\<in>set b. map_of d ''title'' \<noteq> None"
    and "\<forall>ts. \<exists>vs. p ts = Inr vs \<and> length ts \<le> length vs"
  shows "fst (index_batch p b w) = None"
proof -
  from titles_of_total [OF assms(1)] obtain ts where ts: "titles_of b = Inr ts" ..
  from assms(2) obtain vs where vs: "p ts = Inr vs" "length ts \<le> length vs" by blast
  with ts titles_of_length [OF ts] show ?thesis
    by (simp add: index_batch_eq)
qed

lemma index_loop_completes:
  assumes "B \<noteq> 0"
    and "\<forall>ts. \<exists>vs. p ts = Inr vs \<and> length ts \<le> length vs"
    and "\<forall>l\<in>set lines. question_record l \<or> answer_record l"
    and "\<forall>d\<in>set docs. map_of d ''title'' \<noteq> None"
    and "index_loop B p lines docs count w = (r, docs', count', w')"
  shows "r = None \<and> (\<forall>d\<in>set docs'. map_of d ''title'' \<noteq> None)"
  using assms(3-5)
proof (induction lines arbitrary: docs count w)
  case Nil
  then show ?case by simp
next
  case (Cons l ls)
  from Cons.prems(1) have ls: "\<forall>l\<in>set ls. question_record l \<or> answer_record l" by simp
  from Cons.prems(1) obtain d where l: "l = Parsed (JObj d)"
    and d: "map_of d ''type'' = Some (JStr ''question'') \<and> map_of d ''title'' \<noteq> None
          \<or> map_of d ''type'' = Some (JStr ''answer'')"
    by (cases l rule: question_record.cases) auto
  show ?case
  proof (cases "map_of d ''type'' = Some (JStr ''question'')")
    case False
    with d have "map_of d ''type'' = Some (JStr ''answer'')" by simp
    with l Cons.prems(3) have "index_loop B p ls docs count w = (r, docs', count', w')"
      by simp
    from Cons.IH [OF ls Cons.prems(2) this] show ?thesis .
  next
    case True
    with d have t: "map_of d ''title'' \<noteq> None" by auto
    with Cons.prems(2) have titled: "\<forall>x\<in>set (docs @ [d]). map_of x ''title'' \<noteq> None"
      by simp
    obtain wb where ib: "index_batch p (docs @ [d]) w = (None, wb)"
      using index_batch_completes [OF titled assms(2), of w]
      by (cases "index_batch p (docs @ [d]) w") simp
    show ?thesis
    proof (cases "int (count + 1) mod B = 0")
      case flush: True
      with l True ib assms(1) Cons.prems(3)
      have "index_loop B p ls [] (count + 1) wb = (r, docs', count', w')"
        by simp
      from Cons.IH [OF ls _ this] show ?thesis by simp
    next
      case False
      with l True assms(1) Cons.prems(3)
      have "index_loop B p ls (docs @ [d]) (count + 1) w = (r, docs', count', w')"
        by simp
      from Cons.IH [OF ls titled this] show ?thesis .
    qed
  qed
qed

lemma index_data_completes:
  assumes "B \<noteq> 0"
    and "\<forall>ts. \<exists>vs. p ts = Inr vs \<and> length ts \<le> length vs"
    and "\<forall>l\<in>set lines. question_record l \<or> answer_record l"
  shows "fst (index_data B p s lines w) = None"
proof -
  let ?w2 = "(w @ [IndicesDelete INDEX_NAME]) @ [IndicesCreate INDEX_NAME s]"
  obtain rl docs count w3 where loop: "index_loop B p lines [] 0 ?w2 = (rl, docs, count, w3)"
    by (metis prod_cases4)
  from index_loop_completes [OF assms _ loop]
  have rl: "rl = None" and titled: "\<forall>d\<in>set docs. map_of d ''title'' \<noteq> None"
    by auto
  obtain wb where ib: "index_batch p docs w3 = (None, wb)"
    using index_batch_completes [OF titled assms(2), of w3]
    by (cases "index_batch p docs w3") simp
  show ?thesis
    using loop rl ib by (simp add: index_data_def)
qed

section \<open>The calls of the flushed batches\<close>

lemma flush_bulks:
  assumes "fst (index_batch p b []) = None"
  shows "\<exists>vs. length b \<le> length vs \<and> bulks (snd (index_batch p b [])) = [map2 make_request b vs]"
  using index_batch_None [OF assms] by auto

lemma flush_embeds:
  assumes "fst (index_batch p b []) = None"
  shows "\<exists>ts. length ts = length b \<and> embeds (snd (index_batch p b [])) = [ts]"
  using index_batch_None [OF assms] titles_of_length [of b] by auto

lemma flushes_bulk_sizes:
  "\<forall>b\<in>set batches. fst (index_batch p b []) = None \<Longrightarrow>
     map length (bulks (concat (map (\<lambda>b. snd (index_batch p b [])) batches))) = map length batches"
proof (induction batches)
  case Nil
  show ?case by simp
next
  case (Cons b bs)
  from Cons.prems flush_bulks [of p b] obtain vs where
    "length b \<le> length vs" "bulks (snd (index_batch p b [])) = [map2 make_request b vs]"
    by auto
  with Cons show ?case by (simp add: bulks_append)
qed

lemma flushes_embed_sizes:
  "\<forall>b\<in>set batches. fst (index_batch p b []) = None \<Longrightarrow>
     map length (embeds (concat (map (\<lambda>b. snd (index_batch p b [])) batches))) = map length batches"
proof (induction batches)
  case Nil
  show ?case by simp
next
  case (Cons b bs)
  from Cons.prems flush_embeds [of p b] obtain ts where
    "length ts = length b" "embeds (snd (index_batch p b [])) = [ts]"
    by auto
  with Cons show ?case by (simp add: embeds_append)
qed

lemma map2_make_request_all2:
  "length b \<le> length vs \<Longrightarrow>
     list_all2 (\<lambda>request doc. \<exists>v. request = make_request doc v) (map2 make_request b vs) b"
  by (auto simp: list_all2_conv_all_nth)

lemma flushes_requests:
  "\<forall>b\<in>set batches. fst (index_batch p b []) = None \<Longrightarrow>
     list_all2 (\<lambda>request doc. \<exists>v. request = make_request doc v)
       (concat (bulks (concat (map (\<lambda>b. snd (index_batch p b [])) batches)))) (concat batches)"
proof (induction batches)
  case Nil
  show ?case by simp
next
  case (Cons b bs)
  from Cons.prems flush_bulks [of p b] obtain vs where
    "length b \<le> length vs" "bulks (snd (index_batch p b [])) = [map2 make_request b vs]"
    by auto
  with Cons map2_make_request_all2 [of b vs] show ?case
    by (simp add: bulks_append list_all2_appendI)
qed

lemma question_docs_type:
  "d \<in> set (question_docs lines) \<Longrightarrow> map_of d ''type'' = Some (JStr ''question'')"
  by (induction lines rule: question_docs.induct) (auto split: if_splits)

lemma question_docs_records:
  "\<forall>l\<in>set lines. question_record l \<or> answer_record l \<Longrightarrow>
     length (question_docs lines) = length (filter question_record lines)"
  by (induction lines rule: question_docs.induct) auto

section \<open>Facts about the record store\<close>

lemma record_store_append:
  "record_store (a @ b) = fold store_step b (record_store a)"
  by (simp add: record_store_def)

lemma bulk_item_local:
  "st n = st' n \<Longrightarrow> bulk_item r st n = bulk_item r st' n"
  by (auto simp: bulk_item_def split: option.splits json.splits)

lemma fold_bulk_item_local:
  "st n = st' n \<Longrightarrow> fold bulk_item rs st n = fold bulk_item rs st' n"
proof (induction rs arbitrary: st st')
  case Nil
  then show ?case by simp
next
  case (Cons r rs)
  have "bulk_item r st n = bulk_item r st' n"
    using Cons.prems by (rule bulk_item_local)
  then have "fold bulk_item rs (bulk_item r st) n = fold bulk_item rs (bulk_item r st') n"
    by (rule Cons.IH)
  then show ?case by simp
qed

lemma store_step_local:
  "st n = st' n \<Longrightarrow> store_step c st n = store_step c st' n"
proof (cases c)
  case (Bulk rs)
  assume "st n = st' n"
  then have "fold bulk_item rs st n = fold bulk_item rs st' n"
    by (rule fold_bulk_item_local)
  with Bulk show ?thesis by simp
qed simp_all

lemma fold_store_step_local:
  "st n = st' n \<Longrightarrow> fold store_step cs st n = fold store_step cs st' n"
proof (induction cs arbitrary: st st')
  case Nil
  then show ?case by simp
next
  case (Cons c cs)
  have "store_step c st n = store_step c st' n"
    using Cons.prems by (rule store_step_local)
  then have "fold store_step cs (store_step c st) n = fold store_step cs (store_step c st') n"
    by (rule Cons.IH)
  then show ?case by simp
qed

lemma fold_bulk_item_index:
  "\<forall>r\<in>set rs. map_of r ''_index'' = Some (JStr n) \<Longrightarrow> st n = Some items \<Longrightarrow>
     fold bulk_item rs st n = Some (items @ map stored_source rs)"
proof (induction rs arbitrary: st items)
  case Nil
  then show ?case by simp
next
  case (Cons r rs)
  from Cons.prems have "bulk_item r st n = Some (items @ [stored_source r])"
    by (simp add: bulk_item_def)
  moreover have "\<forall>r\<in>set rs. map_of r ''_index'' = Some (JStr n)"
    using Cons.prems(1) by simp
  ultimately have "fold bulk_item rs (bulk_item r st) n
      = Some ((items @ [stored_source r]) @ map stored_source rs)"
    using Cons.IH [of "bulk_item r st" "items @ [stored_source r]"] by simp
  then show ?case by simp
qed

lemma flush_store:
  assumes "fst (index_batch p b []) = None" and "st INDEX_NAME = Some items"
  shows "fold store_step (snd (index_batch p b [])) st INDEX_NAME
           = Some (items @ map stored_source (concat (bulks (snd (index_batch p b [])))))"
proof -
  from index_batch_None [OF assms(1)] obtain ts vs where
    f: "snd (index_batch p b []) = [EmbedText ts, Bulk (map2 make_request b vs)]"
    by auto
  have "\<forall>r\<in>set (map2 make_request b vs). map_of r ''_index'' = Some (JStr INDEX_NAME)"
    by (auto simp: map_of_make_request)
  then have "fold bulk_item (map2 make_request b vs) st INDEX_NAME
      = Some (items @ map stored_source (map2 make_request b vs))"
    using assms(2) by (rule fold_bulk_item_index)
  with f show ?thesis by simp
qed

lemma flushes_store:
  "\<forall>b\<in>set batches. fst (index_batch p b []) = None \<Longrightarrow> st INDEX_NAME = Some items \<Longrightarrow>
     fold store_step (concat (map (\<lambda>b. snd (index_batch p b [])) batches)) st INDEX_NAME
       = Some (items @ map stored_source
           (concat (bulks (concat (map (\<lambda>b. snd (index_batch p b [])) batches)))))"
proof (induction batches arbitrary: st items)
  case Nil
  then show ?case by simp
next
  case (Cons b bs)
  from Cons.prems have ok: "fst (index_batch p b []) = None" by simp
  let ?st = "fold store_step (snd (index_batch p b [])) st"
  let ?items = "items @ map stored_source (concat (bulks (snd (index_batch p b []))))"
  have "?st INDEX_NAME = Some ?items"
    using ok Cons.prems(2) by (rule flush_store)
  moreover have "\<forall>b\<in>set bs. fst (index_batch p b []) = None"
    using Cons.prems(1) by simp
  ultimately show ?case
    using Cons.IH [of ?st ?items] by (simp add: bulks_append)
qed

lemma failed_flush_store:
  assumes "index_batch p b [] = (Some e, tail)"
  shows "fold store_step tail st = st \<and> bulks tail = [] "
  using index_batch_Some [OF assms] by auto

lemma map_of_stored_source:
  "k \<noteq> ''_op_type'' \<Longrightarrow> k \<noteq> ''_index'' \<Longrightarrow> map_of (stored_source r) k = map_of r k"
  by (simp add: stored_source_def)

lemma record_store_recreated:
  "record_store (w @ IndicesDelete n # IndicesCreate n s # rest) n
     = fold store_step rest ((\<lambda>name. None)(n \<mapsto> [])) n"
proof -
  let ?st = "store_step (IndicesCreate n s) (store_step (IndicesDelete n) (record_store w))"
  have "?st n = ((\<lambda>name. None)(n \<mapsto> [])) n" by simp
  then have "fold store_step rest ?st n = fold store_step rest ((\<lambda>name. None)(n \<mapsto> [])) n"
    by (rule fold_store_step_local)
  then show ?thesis by (simp add: record_store_append)
qed

lemma store_after_run:
  assumes "\<forall>b\<in>set batches. fst (index_batch p b []) = None"
    and "tail = [IndicesRefresh INDEX_NAME] \<or> tail = [] \<or> (\<exists>b e. index_batch p b [] = (Some e, tail))"
  shows "record_store (w @ [IndicesDelete INDEX_NAME, IndicesCreate INDEX_NAME s]
             @ concat (map (\<lambda>b. snd (index_batch p b [])) batches) @ tail) INDEX_NAME
     = Some (map stored_source (concat (bulks (concat (map (\<lambda>b. snd (index_batch p b [])) batches)))))"
proof -
  let ?flushes = "concat (map (\<lambda>b. snd (index_batch p b [])) batches)"
  let ?st0 = "(\<lambda>name. None)(INDEX_NAME \<mapsto> []) :: store"
  have "?st0 INDEX_NAME = Some []" by simp
  with assms(1) have f: "fold store_step ?flushes ?st0 INDEX_NAME
      = Some ([] @ map stored_source (concat (bulks ?flushes)))"
    by (rule flushes_store)
  have t: "fold store_step tail st = st" for st
    using assms(2) failed_flush_store [of p _ _ tail st] by auto
  have "record_store (w @ IndicesDelete INDEX_NAME # IndicesCreate INDEX_NAME s # (?flushes @ tail)) INDEX_NAME
      = fold store_step (?flushes @ tail) ?st0 INDEX_NAME"
    by (rule record_store_recreated)
  with f t show ?thesis by simp
qed

section \<open>Facts about the scoring query\<close>

lemma nums_of_map_JNum: "nums_of (map JNum v) = Some v"
  by (induction v) auto

lemma query_score_script_source:
  assumes "query_score cs (ScriptScore MatchAll script_source [(''query_vector'', JArr (map JNum q))]) d = Some x"
  shows "\<exists>j v. map_of d ''title_vector'' = Some j \<and> val_of_json j = Some (Vec v)
           \<and> length v = length q \<and> x = cs q v + 1"
  using assms
  by (auto simp: script_source_def nums_of_map_JNum split: option.splits val.splits if_splits)

lemma score_hits_nth:
  assumes "query_matches (query body) = (\<lambda>d. True)"
    and "score_hits cs body ds i = Some scored"
  shows "length scored = length ds \<and>
     (\<forall>k<length ds. hit_id (scored ! k) = i + k
        \<and> query_score cs (query body) (ds ! k) = Some (hit_score (scored ! k))
        \<and> hit_source (scored ! k) = AList.restrict (set (source_includes body)) (ds ! k))"
  using assms(2)
proof (induction ds arbitrary: i scored)
  case Nil
  then show ?case by simp
next
  case (Cons d ds)
  from Cons.prems assms(1) obtain x rest where
    x: "query_score cs (query body) d = Some x"
    and rest: "score_hits cs body ds (i + 1) = Some rest"
    and scored: "scored = Hit i x (AList.restrict (set (source_includes body)) d) # rest"
    by (auto split: option.splits)
  from Cons.IH [OF rest] have len: "length rest = length ds"
    and nth: "\<And>k. k < length ds \<Longrightarrow> hit_id (rest ! k) = i + 1 + k
        \<and> query_score cs (query body) (ds ! k) = Some (hit_score (rest ! k))
        \<and> hit_source (rest ! k) = AList.restrict (set (source_includes body)) (ds ! k)"
    by auto
  show ?case
  proof (intro conjI allI impI)
    show "length scored = length (d # ds)" using len scored by simp
  next
    fix k assume k: "k < length (d # ds)"
    show "hit_id (scored ! k) = i + k"
      using k scored x nth [of "k - 1"] by (cases k) auto
    show "query_score cs (query body) ((d # ds) ! k) = Some (hit_score (scored ! k))"
      using k scored x nth [of "k - 1"] by (cases k) auto
    show "hit_source (scored ! k) = AList.restrict (set (source_includes body)) ((d # ds) ! k)"
      using k scored x nth [of "k - 1"] by (cases k) auto
  qed
qed

lemma client_search_Inr:
  assumes "client_search cs st name body = Inr hits"
  shows "\<exists>items scored. st name = Some items \<and> score_hits cs body items 0 = Some scored
          \<and> hits = take (size body) (sort_key (\<lambda>h. - hit_score h) scored)"
  using assms by (auto simp: client_search_def split: option.splits)

lemma handle_query_Inr:
  assumes "handle_query p cs query_text w = (Inr hits, w')"
  shows "\<exists>q rest. p [JStr query_text] = Inr (q # rest)
     \<and> client_search cs (record_store w) INDEX_NAME
          \<lparr>size = SEARCH_SIZE,
           query = ScriptScore MatchAll script_source [(''query_vector'', JArr (map JNum q))],
           source_includes = [''title'', ''body'']\<rparr> = Inr hits"
  using assms
  by (auto simp: handle_query_def embed_text_def record_store_append Let_def
      split: sum.splits list.splits)

section \<open>Flushing a batch\<close>

text \<open>
  Claim C4. Whenever \<open>index_batch\<close> flushes a batch (it returns without an exception), it
  has read the title of every record of the batch in order, called the embedding provider
  once on that list of titles, and handed to \<^verbatim>\<open>bulk\<close> one request per record, in order,
  the \<open>i\<close>-th request being the \<open>i\<close>-th record with the \<open>i\<close>-th returned vector stored under
  \<^verbatim>\<open>title_vector\<close> and its title unchanged.
\<close>

theorem index_batch_attaches_title_vectors:
  assumes "index_batch session_run docs w = (None, w')"
  shows "\<exists>titles title_vectors requests.
      list_all2 (\<lambda>doc t. map_of doc ''title'' = Some t) docs titles
    \<and> session_run titles = Inr title_vectors
    \<and> w' = w @ [EmbedText titles, Bulk requests]
    \<and> length requests = length docs
    \<and> (\<forall>i<length docs.
          requests ! i = make_request (docs ! i) (title_vectors ! i)
        \<and> map_of (requests ! i) ''title_vector'' = Some (JArr (map JNum (title_vectors ! i)))
        \<and> map_of (requests ! i) ''title'' = Some (titles ! i))
    \<and> (\<forall>embed. session_run = (\<lambda>texts. Inr (map embed texts)) \<longrightarrow>
          (\<forall>i<length docs.
             map_of (requests ! i) ''title_vector'' = Some (JArr (map JNum (embed (titles ! i))))))"
proof -
  from assms obtain titles where t: "titles_of docs = Inr titles"
    by (auto simp: index_batch_eq split: sum.splits)
  with assms obtain vs where v: "session_run titles = Inr vs"
    by (auto simp: index_batch_eq split: sum.splits)
  from assms t v have len: "length docs \<le> length vs"
    and w': "w' = w @ [EmbedText titles, Bulk (map2 make_request docs vs)]"
    by (auto simp: index_batch_eq split: if_splits)
  let ?requests = "map2 make_request docs vs"
  note all2 = titles_of_Inr [OF t]
  have tl: "length titles = length docs"
    using t by (rule titles_of_length)
  have title: "map_of (docs ! i) ''title'' = Some (titles ! i)" if "i < length docs" for i
    using all2 that by (simp add: list_all2_conv_all_nth)
  have nth: "?requests ! i = make_request (docs ! i) (vs ! i)" if "i < length docs" for i
    using that len by simp
  have c5: "\<forall>i<length docs.
          ?requests ! i = make_request (docs ! i) (vs ! i)
        \<and> map_of (?requests ! i) ''title_vector'' = Some (JArr (map JNum (vs ! i)))
        \<and> map_of (?requests ! i) ''title'' = Some (titles ! i)"
    using nth title by (simp add: map_of_make_request)
  have c6: "\<forall>embed. session_run = (\<lambda>texts. Inr (map embed texts)) \<longrightarrow>
          (\<forall>i<length docs.
             map_of (?requests ! i) ''title_vector'' = Some (JArr (map JNum (embed (titles ! i)))))"
  proof (intro allI impI)
    fix embed i
    assume "session_run = (\<lambda>texts. Inr (map embed texts))" and i: "i < length docs"
    with v have "vs = map embed titles" by simp
    with i tl have "vs ! i = embed (titles ! i)" by simp
    with nth [OF i] show "map_of (?requests ! i) ''title_vector''
        = Some (JArr (map JNum (embed (titles ! i))))"
      by (simp add: map_of_make_request)
  qed
  have c4: "length ?requests = length docs"
    using len by simp
  show ?thesis
    using all2 v w' c4 c5 c6 by blast
qed

theorem index_batch_attaches_title_vectors_witness:
  "index_batch (\<lambda>texts. Inr (map (\<lambda>t. if t = JStr ''a'' then [1, 0] else [0, 1]) texts))
      [[(''type'', JStr ''question''), (''title'', JStr ''a'')],
       [(''type'', JStr ''question''), (''title'', JStr ''b'')]] []
    = (None,
       [EmbedText [JStr ''a'', JStr ''b''],
        Bulk [[(''type'', JStr ''question''), (''title'', JStr ''a''), (''_op_type'', JStr ''index''),
               (''_index'', JStr ''posts''), (''title_vector'', JArr [JNum 1, JNum 0])],
              [(''type'', JStr ''question''), (''title'', JStr ''b''), (''_op_type'', JStr ''index''),
               (''_index'', JStr ''posts''), (''title_vector'', JArr [JNum 0, JNum 1])]]])
   \<and> (\<exists>titles requests.
        list_all2 (\<lambda>doc t. map_of doc ''title'' = Some t)
          [[(''type'', JStr ''question''), (''title'', JStr ''a'')],
           [(''type'', JStr ''question''), (''title'', JStr ''b'')]] titles
      \<and> [EmbedText [JStr ''a'', JStr ''b''],
        Bulk [[(''type'', JStr ''question''), (''title'', JStr ''a''), (''_op_type'', JStr ''index''),
               (''_index'', JStr ''posts''), (''title_vector'', JArr [JNum 1, JNum 0])],
              [(''type'', JStr ''question''), (''title'', JStr ''b''), (''_op_type'', JStr ''index''),
               (''_index'', JStr ''posts''), (''title_vector'', JArr [JNum 0, JNum 1])]]]
          = [] @ [EmbedText titles, Bulk requests]
      \<and> length requests = 2)"
proof -
  let ?p = "(\<lambda>texts. Inr (map (\<lambda>t. if t = JStr ''a'' then [1, 0] else [0, 1]) texts)) :: provider"
  let ?docs = "[[(''type'', JStr ''question''), (''title'', JStr ''a'')],
       [(''type'', JStr ''question''), (''title'', JStr ''b'')]]"
  let ?w = "[EmbedText [JStr ''a'', JStr ''b''],
        Bulk [[(''type'', JStr ''question''), (''title'', JStr ''a''), (''_op_type'', JStr ''index''),
               (''_index'', JStr ''posts''), (''title_vector'', JArr [JNum 1, JNum 0])],
              [(''type'', JStr ''question''), (''title'', JStr ''b''), (''_op_type'', JStr ''index''),
               (''_index'', JStr ''posts''), (''title_vector'', JArr [JNum 0, JNum 1])]]]"
  have h: "index_batch ?p ?docs [] = (None, ?w)"
    by (simp add: index_batch_def embed_text_def make_request_def INDEX_NAME_def)
  from index_batch_attaches_title_vectors [OF h]
  obtain titles title_vectors requests where
    c: "list_all2 (\<lambda>doc t. map_of doc ''title'' = Some t) ?docs titles"
      "?w = [] @ [EmbedText titles, Bulk requests]"
      "length requests = length ?docs"
    by blast
  from c(3) have "length requests = 2" by simp
  with c(1,2) have "\<exists>titles requests.
        list_all2 (\<lambda>doc t. map_of doc ''title'' = Some t) ?docs titles
      \<and> ?w = [] @ [EmbedText titles, Bulk requests] \<and> length requests = 2"
    by blast
  with h show ?thesis by (rule conjI)
qed

section \<open>Batching\<close>

text \<open>
  Claim C3. With a positive batch size, a run of \<open>index_data\<close> completes on every stream
  of question and answer records when the provider returns a vector per title; and in
  every run that completes, the requests written by the successive \<^verbatim>\<open>bulk\<close> calls are,
  in stream order, the kept (question) records with their three entries added, cut into
  batches of exactly \<open>BATCH_SIZE\<close> requests followed, when the number of kept records is
  not a multiple of \<open>BATCH_SIZE\<close>, by one last batch with the remaining ones. In
  particular \<open>BATCH_SIZE + 1\<close> question records give two \<^verbatim>\<open>bulk\<close> calls, of \<open>BATCH_SIZE\<close>
  requests and of one.
\<close>

theorem index_data_flushes_at_batch_size:
  assumes "0 < B" and "index_data B p s lines w = (r, w')"
  shows "((\<forall>ts. \<exists>vs. p ts = Inr vs \<and> length ts \<le> length vs)
          \<and> (\<forall>l\<in>set lines. question_record l \<or> answer_record l) \<longrightarrow> r = None)
     \<and> (r = None \<longrightarrow>
          (\<exists>calls. w' = w @ calls
            \<and> list_all2 (\<lambda>request doc. \<exists>v. request = make_request doc v)
                 (concat (bulks calls)) (question_docs lines)
            \<and> map length (bulks calls) =
                 replicate (length (question_docs lines) div nat B) (nat B)
                 @ (if length (question_docs lines) mod nat B = 0 then []
                    else [length (question_docs lines) mod nat B])
            \<and> (length (question_docs lines) = nat B + 1 \<longrightarrow>
                 map length (bulks calls) = [nat B, 1])))"
proof (intro conjI impI)
  assume "(\<forall>ts. \<exists>vs. p ts = Inr vs \<and> length ts \<le> length vs)
          \<and> (\<forall>l\<in>set lines. question_record l \<or> answer_record l)"
  with assms index_data_completes [of B p lines s w] show "r = None" by simp
next
  let ?flush = "\<lambda>b. snd (index_batch p b [])"
  let ?N = "length (question_docs lines)"
  assume "r = None"
  from index_data_success [OF assms(1) assms(2) [unfolded this]]
  obtain batches where b:
    "w' = w @ [IndicesDelete INDEX_NAME, IndicesCreate INDEX_NAME s]
           @ concat (map ?flush batches) @ [IndicesRefresh INDEX_NAME]"
    "\<forall>b\<in>set batches. fst (index_batch p b []) = None"
    "concat batches = question_docs lines"
    "map length batches =
        replicate (?N div nat B) (nat B) @ (if ?N mod nat B = 0 then [] else [?N mod nat B])"
    by blast
  let ?calls = "[IndicesDelete INDEX_NAME, IndicesCreate INDEX_NAME s]
           @ concat (map ?flush batches) @ [IndicesRefresh INDEX_NAME]"
  have bk: "bulks ?calls = bulks (concat (map ?flush batches))"
    by (simp add: bulks_append)
  have reqs: "list_all2 (\<lambda>request doc. \<exists>v. request = make_request doc v)
       (concat (bulks ?calls)) (question_docs lines)"
    unfolding bk using flushes_requests [OF b(2)] b(3) by simp
  have sizes: "map length (bulks ?calls) =
      replicate (?N div nat B) (nat B) @ (if ?N mod nat B = 0 then [] else [?N mod nat B])"
    unfolding bk using flushes_bulk_sizes [OF b(2)] b(4) by simp
  have two: "map length (bulks ?calls) = [nat B, 1]" if n: "?N = nat B + 1"
  proof (cases "nat B = 1")
    case True
    with n have "?N div nat B = 2" "?N mod nat B = 0" by simp_all
    with sizes True show ?thesis by (simp add: numeral_2_eq_2)
  next
    case False
    with assms(1) have "1 < nat B" by simp
    with n Suc_div_self [of "nat B"] have "?N div nat B = 1" "?N mod nat B = 1"
      by simp_all
    with sizes show ?thesis by simp
  qed
  show "\<exists>calls. w' = w @ calls
            \<and> list_all2 (\<lambda>request doc. \<exists>v. request = make_request doc v)
                 (concat (bulks calls)) (question_docs lines)
            \<and> map length (bulks calls) =
                 replicate (?N div nat B) (nat B) @ (if ?N mod nat B = 0 then [] else [?N mod nat B])
            \<and> (?N = nat B + 1 \<longrightarrow> map length (bulks calls) = [nat B, 1])"
  proof (intro exI [of _ ?calls] conjI)
    show "w' = w @ ?calls" by (rule b(1))
    show "list_all2 (\<lambda>request doc. \<exists>v. request = make_request doc v)
       (concat (bulks ?calls)) (question_docs lines)" by (rule reqs)
    show "map length (bulks ?calls) =
      replicate (?N div nat B) (nat B) @ (if ?N mod nat B = 0 then [] else [?N mod nat B])"
      by (rule sizes)
    show "?N = nat B + 1 \<longrightarrow> map length (bulks ?calls) = [nat B, 1]"
      using two by blast
  qed
qed

theorem index_data_flushes_at_batch_size_witness:
  "fst (index_data 2 (\<lambda>ts. Inr (map (\<lambda>t. [1]) ts)) ''{}''
     [Parsed (JObj [(''type'', JStr ''question''), (''title'', JStr ''a'')]),
      Parsed (JObj [(''type'', JStr ''question''), (''title'', JStr ''b'')]),
      Parsed (JObj [(''type'', JStr ''question''), (''title'', JStr ''c'')])] []) = None
   \<and> map length (bulks (snd (index_data 2 (\<lambda>ts. Inr (map (\<lambda>t. [1]) ts)) ''{}''
     [Parsed (JObj [(''type'', JStr ''question''), (''title'', JStr ''a'')]),
      Parsed (JObj [(''type'', JStr ''question''), (''title'', JStr ''b'')]),
      Parsed (JObj [(''type'', JStr ''question''), (''title'', JStr ''c'')])] []))) = [2, 1]"
proof -
  let ?p = "\<lambda>ts. Inr (map (\<lambda>t. [1]) ts) :: error + vector list"
  let ?lines = "[Parsed (JObj [(''type'', JStr ''question''), (''title'', JStr ''a'')]),
      Parsed (JObj [(''type'', JStr ''question''), (''title'', JStr ''b'')]),
      Parsed (JObj [(''type'', JStr ''question''), (''title'', JStr ''c'')])]"
  let ?run = "index_data 2 ?p ''{}'' ?lines []"
  have pos: "(0::int) < 2" by simp
  have h: "?run = (fst ?run, snd ?run)" by simp
  have wf: "(\<forall>ts. \<exists>vs. ?p ts = Inr vs \<and> length ts \<le> length vs)
      \<and> (\<forall>l\<in>set ?lines. question_record l \<or> answer_record l)"
    by simp
  have n: "length (question_docs ?lines) = nat 2 + 1" by simp
  note t = index_data_flushes_at_batch_size [OF pos h]
  from t [THEN conjunct1] wf have r: "fst ?run = None" by (rule mp)
  from t [THEN conjunct2] r
  have "\<exists>calls. snd ?run = [] @ calls
            \<and> list_all2 (\<lambda>request doc. \<exists>v. request = make_request doc v)
                 (concat (bulks calls)) (question_docs ?lines)
            \<and> map length (bulks calls) =
                 replicate (length (question_docs ?lines) div nat 2) (nat 2)
                 @ (if length (question_docs ?lines) mod nat 2 = 0 then []
                    else [length (question_docs ?lines) mod nat 2])
            \<and> (length (question_docs ?lines) = nat 2 + 1 \<longrightarrow>
                 map length (bulks calls) = [nat 2, 1])"
    by (rule mp)
  then obtain calls where c1: "snd ?run = [] @ calls"
    and c2: "length (question_docs ?lines) = nat 2 + 1 \<longrightarrow> map length (bulks calls) = [nat 2, 1]"
    by (elim exE conjE)
  from c2 n have "map length (bulks calls) = [nat 2, 1]" by (rule mp)
  moreover from c1 have "calls = snd ?run" by simp
  ultimately have "map length (bulks (snd ?run)) = [2, 1]" by simp
  with r show ?thesis by (rule conjI)
qed

text \<open>
  Claim C10. In every run of \<open>index_data\<close>, whatever its outcome and whatever the batch
  size, no call of the embedding provider and no call of \<^verbatim>\<open>bulk\<close> carries an empty list.
  In a run that completes with a positive batch size, every flush embeds as many titles as
  it writes requests, every flush but the last one writes exactly \<open>BATCH_SIZE\<close> requests,
  and when the number of question records is a multiple of \<open>BATCH_SIZE\<close> every flush
  writes exactly \<open>BATCH_SIZE\<close> requests and there are exactly that many flushes: no
  trailing flush is issued.
\<close>

theorem index_data_never_flushes_empty_batch:
  assumes "index_data B p s lines w = (r, w')"
  shows "\<exists>calls. w' = w @ calls
     \<and> [] \<notin> set (embeds calls) \<and> [] \<notin> set (bulks calls)
     \<and> (0 < B \<and> r = None \<longrightarrow>
          map length (embeds calls) = map length (bulks calls)
        \<and> (\<forall>requests\<in>set (butlast (bulks calls)). length requests = nat B)
        \<and> (length (question_docs lines) mod nat B = 0 \<longrightarrow>
             (\<forall>requests\<in>set (bulks calls). length requests = nat B)
           \<and> length (bulks calls) = length (question_docs lines) div nat B))"
proof -
  let ?flush = "\<lambda>b. snd (index_batch p b [])"
  let ?N = "length (question_docs lines)"
  from index_data_run [OF assms]
  obtain batches tail where b:
    "w' = w @ [IndicesDelete INDEX_NAME, IndicesCreate INDEX_NAME s]
             @ concat (map ?flush batches) @ tail"
    "\<forall>b\<in>set batches. b \<noteq> [] \<and> fst (index_batch p b []) = None
          \<and> set b \<subseteq> set (question_docs lines)"
    "r = None \<longrightarrow> tail = [IndicesRefresh INDEX_NAME]"
    "\<forall>e. r = Some e \<longrightarrow> tail = [] \<or>
          (\<exists>b. b \<noteq> [] \<and> set b \<subseteq> set (question_docs lines)
              \<and> index_batch p b [] = (Some e, tail))"
    by blast
  let ?calls = "[IndicesDelete INDEX_NAME, IndicesCreate INDEX_NAME s]
             @ concat (map ?flush batches) @ tail"
  have ok: "\<forall>b\<in>set batches. fst (index_batch p b []) = None"
    using b(2) by simp
  have nonempty: "0 \<notin> set (map length batches)"
    using b(2) by auto
  have tail_bulks: "bulks tail = []"
  proof (cases r)
    case None
    with b(3) show ?thesis by simp
  next
    case (Some e)
    with b(4) failed_flush_store [of p _ e tail] show ?thesis by auto
  qed
  have tail_embeds: "[] \<notin> set (embeds tail)"
  proof (cases r)
    case None
    with b(3) show ?thesis by simp
  next
    case (Some e)
    show ?thesis
    proof (cases "tail = []")
      case True
      then show ?thesis by simp
    next
      case False
      with b(4) Some obtain bf where bf: "bf \<noteq> []" "index_batch p bf [] = (Some e, tail)"
        by auto
      from index_batch_Some [OF bf(2)] False
      obtain ts where "titles_of bf = Inr ts" "tail = [EmbedText ts]" by auto
      with bf(1) titles_of_length [of bf ts] show ?thesis by auto
    qed
  qed
  have bulk_sizes: "map length (bulks ?calls) = map length batches"
    using flushes_bulk_sizes [OF ok] tail_bulks by (simp add: bulks_append)
  have embed_sizes: "map length (embeds ?calls) = map length batches @ map length (embeds tail)"
    using flushes_embed_sizes [OF ok] by (simp add: embeds_append)
  have e: "[] \<notin> set (embeds ?calls)"
    using embed_sizes nonempty tail_embeds by (simp add: Nil_notin_iff)
  have k: "[] \<notin> set (bulks ?calls)"
    using bulk_sizes nonempty by (simp add: Nil_notin_iff)
  have full: "map length (embeds ?calls) = map length (bulks ?calls)
        \<and> (\<forall>requests\<in>set (butlast (bulks ?calls)). length requests = nat B)
        \<and> (?N mod nat B = 0 \<longrightarrow>
             (\<forall>requests\<in>set (bulks ?calls). length requests = nat B)
           \<and> length (bulks ?calls) = ?N div nat B)"
    if pos: "0 < B" and rNone: "r = None"
  proof -
    from index_data_success [OF pos assms [unfolded rNone]]
    obtain batches' where b':
      "w' = w @ [IndicesDelete INDEX_NAME, IndicesCreate INDEX_NAME s]
             @ concat (map ?flush batches') @ [IndicesRefresh INDEX_NAME]"
      "\<forall>b\<in>set batches'. fst (index_batch p b []) = None"
      "map length batches' =
        replicate (?N div nat B) (nat B) @ (if ?N mod nat B = 0 then [] else [?N mod nat B])"
      by blast
    let ?calls' = "[IndicesDelete INDEX_NAME, IndicesCreate INDEX_NAME s]
             @ concat (map ?flush batches') @ [IndicesRefresh INDEX_NAME]"
    from b(1) b'(1) have eq: "?calls = ?calls'" by simp
    have sizes: "map length (bulks ?calls) =
        replicate (?N div nat B) (nat B) @ (if ?N mod nat B = 0 then [] else [?N mod nat B])"
      unfolding eq using flushes_bulk_sizes [OF b'(2)] b'(3) by (simp add: bulks_append)
    have "map length (embeds ?calls) = map length (bulks ?calls)"
      unfolding eq using flushes_bulk_sizes [OF b'(2)] flushes_embed_sizes [OF b'(2)]
      by (simp add: bulks_append embeds_append)
    moreover have "\<forall>requests\<in>set (butlast (bulks ?calls)). length requests = nat B"
    proof
      fix requests assume "requests \<in> set (butlast (bulks ?calls))"
      then have "length requests \<in> set (butlast (map length (bulks ?calls)))"
        by (simp add: map_butlast [symmetric] del: bulks.simps)
      then show "length requests = nat B"
        unfolding sizes by (rule butlast_sizes)
    qed
    moreover have "(\<forall>requests\<in>set (bulks ?calls). length requests = nat B)
           \<and> length (bulks ?calls) = ?N div nat B" if "?N mod nat B = 0"
    proof -
      from sizes that have s0: "map length (bulks ?calls) = replicate (?N div nat B) (nat B)"
        by simp
      then have "length (map length (bulks ?calls)) = ?N div nat B" by simp
      moreover have "length requests = nat B" if "requests \<in> set (bulks ?calls)" for requests
      proof -
        from that have "length requests \<in> set (map length (bulks ?calls))"
          by (simp del: bulks.simps)
        then show ?thesis unfolding s0 by simp
      qed
      ultimately show ?thesis by simp
    qed
    ultimately show ?thesis by blast
  qed
  show ?thesis
  proof (intro exI [of _ ?calls] conjI)
    show "w' = w @ ?calls" using b(1) by simp
    show "[] \<notin> set (embeds ?calls)" by (rule e)
    show "[] \<notin> set (bulks ?calls)" by (rule k)
    show "0 < B \<and> r = None \<longrightarrow>
          map length (embeds ?calls) = map length (bulks ?calls)
        \<and> (\<forall>requests\<in>set (butlast (bulks ?calls)). length requests = nat B)
        \<and> (?N mod nat B = 0 \<longrightarrow>
             (\<forall>requests\<in>set (bulks ?calls). length requests = nat B)
           \<and> length (bulks ?calls) = ?N div nat B)"
    proof
      assume "0 < B \<and> r = None"
      then have "0 < B" "r = None" by simp_all
      then show "map length (embeds ?calls) = map length (bulks ?calls)
        \<and> (\<forall>requests\<in>set (butlast (bulks ?calls)). length requests = nat B)
        \<and> (?N mod nat B = 0 \<longrightarrow>
             (\<forall>requests\<in>set (bulks ?calls). length requests = nat B)
           \<and> length (bulks ?calls) = ?N div nat B)"
        by (rule full)
    qed
  qed
qed

theorem index_data_never_flushes_empty_batch_witness:
  "index_data 2 (\<lambda>ts. Inr (map (\<lambda>t. [1]) ts)) ''{}''
     [Parsed (JObj [(''type'', JStr ''question''), (''title'', JStr ''a'')]),
      Parsed (JObj [(''type'', JStr ''answer''), (''body'', JStr ''x'')]),
      Parsed (JObj [(''type'', JStr ''question''), (''title'', JStr ''b'')])] []
   = (None, [IndicesDelete ''posts'', IndicesCreate ''posts'' ''{}'',
        EmbedText [JStr ''a'', JStr ''b''],
        Bulk [[(''type'', JStr ''question''), (''title'', JStr ''a''), (''_op_type'', JStr ''index''),
               (''_index'', JStr ''posts''), (''title_vector'', JArr [JNum 1])],
              [(''type'', JStr ''question''), (''title'', JStr ''b''), (''_op_type'', JStr ''index''),
               (''_index'', JStr ''posts''), (''title_vector'', JArr [JNum 1])]],
        IndicesRefresh ''posts''])
   \<and> (\<exists>calls. [IndicesDelete ''posts'', IndicesCreate ''posts'' ''{}'',
        EmbedText [JStr ''a'', JStr ''b''],
        Bulk [[(''type'', JStr ''question''), (''title'', JStr ''a''), (''_op_type'', JStr ''index''),
               (''_index'', JStr ''posts''), (''title_vector'', JArr [JNum 1])],
              [(''type'', JStr ''question''), (''title'', JStr ''b''), (''_op_type'', JStr ''index''),
               (''_index'', JStr ''posts''), (''title_vector'', JArr [JNum 1])]],
        IndicesRefresh ''posts''] = [] @ calls
      \<and> [] \<notin> set (embeds calls) \<and> [] \<notin> set (bulks calls) \<and> length (bulks calls) = 1)"
proof -
  let ?lines = "[Parsed (JObj [(''type'', JStr ''question''), (''title'', JStr ''a'')]),
      Parsed (JObj [(''type'', JStr ''answer''), (''body'', JStr ''x'')]),
      Parsed (JObj [(''type'', JStr ''question''), (''title'', JStr ''b'')])]"
  have h: "index_data 2 (\<lambda>ts. Inr (map (\<lambda>t. [1]) ts)) ''{}'' ?lines []
   = (None, [IndicesDelete ''posts'', IndicesCreate ''posts'' ''{}'',
        EmbedText [JStr ''a'', JStr ''b''],
        Bulk [[(''type'', JStr ''question''), (''title'', JStr ''a''), (''_op_type'', JStr ''index''),
               (''_index'', JStr ''posts''), (''title_vector'', JArr [JNum 1])],
              [(''type'', JStr ''question''), (''title'', JStr ''b''), (''_op_type'', JStr ''index''),
               (''_index'', JStr ''posts''), (''title_vector'', JArr [JNum 1])]],
        IndicesRefresh ''posts''])"
    by (simp add: index_data_def index_batch_def embed_text_def make_request_def INDEX_NAME_def)
  have n: "length (question_docs ?lines) = 2" by simp
  from index_data_never_flushes_empty_batch [OF h] h show ?thesis
    unfolding n by auto
qed

section \<open>What ingestion leaves in the index\<close>

text \<open>
  Claim C2. After every run of \<open>index_data\<close>, whatever its outcome, the index holds only
  records whose \<^verbatim>\<open>type\<close> is \<^verbatim>\<open>"question"\<close>: no answer record is written. On a stream made of
  question records and answer records, with a positive batch size and a provider that
  returns a vector per title, the run completes and the index holds exactly as many
  records as the stream has question records: the kept records in stream order, each with
  its \<^verbatim>\<open>title_vector\<close>.
\<close>

theorem index_data_persists_exactly_the_questions:
  assumes "index_data B p s lines w = (r, w')"
  shows "\<exists>items. record_store w' INDEX_NAME = Some items
     \<and> (\<forall>item\<in>set items. map_of item ''type'' = Some (JStr ''question''))
     \<and> (0 < B \<and> (\<forall>ts. \<exists>vs. p ts = Inr vs \<and> length ts \<le> length vs)
          \<and> (\<forall>l\<in>set lines. question_record l \<or> answer_record l)
        \<longrightarrow> r = None
          \<and> length items = length (filter question_record lines)
          \<and> list_all2 (\<lambda>item doc. \<exists>v. item = stored_source (make_request doc v))
               items (question_docs lines))"
proof -
  let ?flush = "\<lambda>b. snd (index_batch p b [])"
  let ?dc = "[IndicesDelete INDEX_NAME, IndicesCreate INDEX_NAME s]"
  from index_data_run [OF assms]
  obtain batches tail where b:
    "w' = w @ ?dc @ concat (map ?flush batches) @ tail"
    "\<forall>b\<in>set batches. b \<noteq> [] \<and> fst (index_batch p b []) = None
          \<and> set b \<subseteq> set (question_docs lines)"
    "r = None \<longrightarrow> tail = [IndicesRefresh INDEX_NAME]"
    "\<forall>e. r = Some e \<longrightarrow> tail = [] \<or>
          (\<exists>b. b \<noteq> [] \<and> set b \<subseteq> set (question_docs lines)
              \<and> index_batch p b [] = (Some e, tail))"
    by blast
  let ?items = "map stored_source (concat (bulks (concat (map ?flush batches))))"
  have ok: "\<forall>b\<in>set batches. fst (index_batch p b []) = None"
    using b(2) by simp
  have tail: "tail = [IndicesRefresh INDEX_NAME] \<or> tail = []
      \<or> (\<exists>b e. index_batch p b [] = (Some e, tail))"
    using b(3,4) by (cases r) auto
  have store: "record_store w' INDEX_NAME = Some ?items"
    unfolding b(1) using ok tail by (rule store_after_run)
  have questions: "map_of item ''type'' = Some (JStr ''question'')" if "item \<in> set ?items" for item
  proof -
    from that obtain request where req: "request \<in> set (concat (bulks (concat (map ?flush batches))))"
      "item = stored_source request" by auto
    from list_all2_setD [OF flushes_requests [OF ok] req(1)]
    obtain doc v where doc: "doc \<in> set (concat batches)" "request = make_request doc v"
      by blast
    from doc(1) b(2) have "doc \<in> set (question_docs lines)" by auto
    then have "map_of doc ''type'' = Some (JStr ''question'')"
      by (rule question_docs_type)
    with req(2) doc(2) show ?thesis
      by (simp add: map_of_stored_source map_of_make_request)
  qed
  have complete: "r = None
          \<and> length ?items = length (filter question_record lines)
          \<and> list_all2 (\<lambda>item doc. \<exists>v. item = stored_source (make_request doc v))
               ?items (question_docs lines)"
    if pos: "0 < B"
      and prov: "\<forall>ts. \<exists>vs. p ts = Inr vs \<and> length ts \<le> length vs"
      and wf: "\<forall>l\<in>set lines. question_record l \<or> answer_record l"
  proof -
    from pos have "B \<noteq> 0" by simp
    from index_data_completes [OF this prov wf, of s w] assms have r: "r = None" by simp
    from index_data_success [OF pos assms [unfolded r]]
    obtain batches' where b':
      "w' = w @ ?dc @ concat (map ?flush batches') @ [IndicesRefresh INDEX_NAME]"
      "\<forall>b\<in>set batches'. fst (index_batch p b []) = None"
      "concat batches' = question_docs lines"
      by blast
    let ?items' = "map stored_source (concat (bulks (concat (map ?flush batches'))))"
    have "record_store w' INDEX_NAME = Some ?items'"
      unfolding b'(1) using b'(2) by (rule store_after_run) simp
    with store have eq: "?items = ?items'" by simp
    have "list_all2 (\<lambda>request doc. \<exists>v. request = make_request doc v)
        (concat (bulks (concat (map ?flush batches')))) (question_docs lines)"
      using flushes_requests [OF b'(2)] b'(3) by simp
    then have all2: "list_all2 (\<lambda>item doc. \<exists>v. item = stored_source (make_request doc v))
        ?items' (question_docs lines)"
      unfolding list_all2_map1 by (rule list_all2_mono) auto
    then have "length ?items' = length (question_docs lines)"
      by (rule list_all2_lengthD)
    with question_docs_records [OF wf]
    have "length ?items' = length (filter question_record lines)" by simp
    with r all2 show ?thesis unfolding eq by blast
  qed
  show ?thesis
  proof (intro exI [of _ ?items] conjI)
    show "record_store w' INDEX_NAME = Some ?items" by (rule store)
    show "\<forall>item\<in>set ?items. map_of item ''type'' = Some (JStr ''question'')"
      using questions by blast
    show "0 < B \<and> (\<forall>ts. \<exists>vs. p ts = Inr vs \<and> length ts \<le> length vs)
          \<and> (\<forall>l\<in>set lines. question_record l \<or> answer_record l)
        \<longrightarrow> r = None
          \<and> length ?items = length (filter question_record lines)
          \<and> list_all2 (\<lambda>item doc. \<exists>v. item = stored_source (make_request doc v))
               ?items (question_docs lines)"
      using complete by blast
  qed
qed

theorem index_data_persists_exactly_the_questions_witness:
  "fst (index_data 2 (\<lambda>ts. Inr (map (\<lambda>t. [1]) ts)) ''{}''
     [Parsed (JObj [(''type'', JStr ''question''), (''title'', JStr ''a'')]),
      Parsed (JObj [(''type'', JStr ''answer''), (''body'', JStr ''x'')]),
      Parsed (JObj [(''type'', JStr ''question''), (''title'', JStr ''b'')])] []) = None
   \<and> (\<exists>items. record_store (snd (index_data 2 (\<lambda>ts. Inr (map (\<lambda>t. [1]) ts)) ''{}''
     [Parsed (JObj [(''type'', JStr ''question''), (''title'', JStr ''a'')]),
      Parsed (JObj [(''type'', JStr ''answer''), (''body'', JStr ''x'')]),
      Parsed (JObj [(''type'', JStr ''question''), (''title'', JStr ''b'')])] [])) INDEX_NAME = Some items
      \<and> length items = 2)"
proof -
  let ?p = "(\<lambda>ts. Inr (map (\<lambda>t. [1]) ts)) :: provider"
  let ?lines = "[Parsed (JObj [(''type'', JStr ''question''), (''title'', JStr ''a'')]),
      Parsed (JObj [(''type'', JStr ''answer''), (''body'', JStr ''x'')]),
      Parsed (JObj [(''type'', JStr ''question''), (''title'', JStr ''b'')])]"
  let ?run = "index_data 2 ?p ''{}'' ?lines []"
  have h: "?run = (fst ?run, snd ?run)" by simp
  have wf: "(0::int) < 2 \<and> (\<forall>ts. \<exists>vs. ?p ts = Inr vs \<and> length ts \<le> length vs)
      \<and> (\<forall>l\<in>set ?lines. question_record l \<or> answer_record l)"
    by simp
  have n: "length (filter question_record ?lines) = 2" by simp
  from index_data_persists_exactly_the_questions [OF h]
  obtain items where all: "record_store (snd ?run) INDEX_NAME = Some items
     \<and> (\<forall>item\<in>set items. map_of item ''type'' = Some (JStr ''question''))
     \<and> ((0::int) < 2 \<and> (\<forall>ts. \<exists>vs. ?p ts = Inr vs \<and> length ts \<le> length vs)
          \<and> (\<forall>l\<in>set ?lines. question_record l \<or> answer_record l)
        \<longrightarrow> fst ?run = None
          \<and> length items = length (filter question_record ?lines)
          \<and> list_all2 (\<lambda>item doc. \<exists>v. item = stored_source (make_request doc v))
               items (question_docs ?lines))"
    ..
  note i = all [THEN conjunct1]
  note imp = all [THEN conjunct2, THEN conjunct2]
  from imp wf have "fst ?run = None
          \<and> length items = length (filter question_record ?lines)
          \<and> list_all2 (\<lambda>item doc. \<exists>v. item = stored_source (make_request doc v))
               items (question_docs ?lines)"
    by (rule mp)
  then have r: "fst ?run = None" and l: "length items = length (filter question_record ?lines)"
    by (rule conjunct1, rule conjunct2 [THEN conjunct1])
  from l n have "length items = 2" by (rule trans)
  with i have "\<exists>items. record_store (snd ?run) INDEX_NAME = Some items \<and> length items = 2"
    by blast
  with r show ?thesis by (rule conjI)
qed

text \<open>
  Claim C5. Every run of \<open>index_data\<close> begins with exactly two calls, the deletion of the
  index \<open>INDEX_NAME\<close> and its creation from the schema, and deletes or creates nothing
  afterwards: every \<^verbatim>\<open>bulk\<close> call comes behind them. After the run the index exists and
  holds exactly the records written by the \<^verbatim>\<open>bulk\<close> calls of this run (in a completed run
  with a positive batch size, the kept records of the stream, each with its vector), none
  of what it held before. Nothing the run does depends on the calls made before, so a
  second run on the same stream makes the same calls, has the same outcome and leaves the
  index with the same records as the first run did.
\<close>

theorem index_data_twice_leaves_same_index:
  "\<exists>rest.
      snd (index_data B p s lines w)
        = w @ IndicesDelete INDEX_NAME # IndicesCreate INDEX_NAME s # rest
    \<and> snd (index_data B p s lines (snd (index_data B p s lines w)))
        = snd (index_data B p s lines w)
            @ IndicesDelete INDEX_NAME # IndicesCreate INDEX_NAME s # rest
    \<and> (\<forall>name. IndicesDelete name \<notin> set rest)
    \<and> (\<forall>name src. IndicesCreate name src \<notin> set rest)
    \<and> record_store (snd (index_data B p s lines w)) INDEX_NAME
        = Some (map stored_source (concat (bulks rest)))
    \<and> record_store (snd (index_data B p s lines w)) INDEX_NAME
        = record_store (snd (index_data B p s lines [])) INDEX_NAME
    \<and> fst (index_data B p s lines (snd (index_data B p s lines w)))
        = fst (index_data B p s lines w)
    \<and> record_store (snd (index_data B p s lines (snd (index_data B p s lines w)))) INDEX_NAME
        = record_store (snd (index_data B p s lines w)) INDEX_NAME
    \<and> (0 < B \<and> fst (index_data B p s lines w) = None \<longrightarrow>
          list_all2 (\<lambda>item doc. \<exists>v. item = stored_source (make_request doc v))
            (map stored_source (concat (bulks rest))) (question_docs lines))"
proof -
  let ?flush = "\<lambda>b. snd (index_batch p b [])"
  obtain r0 T where run: "index_data B p s lines [] = (r0, T)"
    by (cases "index_data B p s lines []")
  have frame: "index_data B p s lines v = (r0, v @ T)" for v
    using index_data_frame [of B p s lines v] run by simp
  from index_data_run [OF run]
  obtain batches tail where b:
    "T = [] @ [IndicesDelete INDEX_NAME, IndicesCreate INDEX_NAME s]
             @ concat (map ?flush batches) @ tail"
    "\<forall>b\<in>set batches. b \<noteq> [] \<and> fst (index_batch p b []) = None
          \<and> set b \<subseteq> set (question_docs lines)"
    "r0 = None \<longrightarrow> tail = [IndicesRefresh INDEX_NAME]"
    "\<forall>e. r0 = Some e \<longrightarrow> tail = [] \<or>
          (\<exists>b. b \<noteq> [] \<and> set b \<subseteq> set (question_docs lines)
              \<and> index_batch p b [] = (Some e, tail))"
    by blast
  let ?flushes = "concat (map ?flush batches)"
  let ?rest = "?flushes @ tail"
  have T: "T = IndicesDelete INDEX_NAME # IndicesCreate INDEX_NAME s # ?rest"
    using b(1) by simp
  have ok: "\<forall>b\<in>set batches. fst (index_batch p b []) = None"
    using b(2) by simp
  have tail: "tail = [IndicesRefresh INDEX_NAME] \<or> tail = []
      \<or> (\<exists>b e. index_batch p b [] = (Some e, tail))"
    using b(3,4) by (cases r0) auto
  have tail_bulks: "bulks tail = []"
    using tail failed_flush_store [of p _ _ tail] by auto
  have kinds: "(\<exists>ts. c = EmbedText ts) \<or> (\<exists>rs. c = Bulk rs) \<or> c = IndicesRefresh INDEX_NAME"
    if "c \<in> set ?rest" for c
  proof -
    from that consider "c \<in> set ?flushes" | "c \<in> set tail" by auto
    then show ?thesis
    proof cases
      case 1
      then obtain b where "c \<in> set (?flush b)" by auto
      from index_batch_calls [OF this] show ?thesis by blast
    next
      case 2
      from tail show ?thesis
      proof (elim disjE exE)
        assume "tail = [IndicesRefresh INDEX_NAME]"
        with 2 show ?thesis by simp
      next
        assume "tail = []"
        with 2 show ?thesis by simp
      next
        fix bf e assume "index_batch p bf [] = (Some e, tail)"
        then have "tail = snd (index_batch p bf [])" by simp
        with 2 index_batch_calls [of c p bf] show ?thesis by blast
      qed
    qed
  qed
  have c3: "\<forall>name. IndicesDelete name \<notin> set ?rest"
    using kinds by blast
  have c4: "\<forall>name src. IndicesCreate name src \<notin> set ?rest"
    using kinds by blast
  have bk: "bulks ?rest = bulks ?flushes"
    using tail_bulks by (simp add: bulks_append)
  have store: "record_store (v @ T) INDEX_NAME
      = Some (map stored_source (concat (bulks ?rest)))" for v
  proof -
    have "record_store (v @ [IndicesDelete INDEX_NAME, IndicesCreate INDEX_NAME s]
             @ ?flushes @ tail) INDEX_NAME
        = Some (map stored_source (concat (bulks ?flushes)))"
      using ok tail by (rule store_after_run)
    then show ?thesis unfolding T bk by simp
  qed
  have w1: "snd (index_data B p s lines w) = w @ T"
    using frame [of w] by simp
  have r1: "fst (index_data B p s lines w) = r0"
    using frame [of w] by simp
  have second: "index_data B p s lines (w @ T) = (r0, (w @ T) @ T)"
    by (rule frame)
  have c9: "list_all2 (\<lambda>item doc. \<exists>v. item = stored_source (make_request doc v))
            (map stored_source (concat (bulks ?rest))) (question_docs lines)"
    if pos: "0 < B" and rNone: "r0 = None"
  proof -
    from index_data_success [OF pos run [unfolded rNone]]
    obtain batches' where b':
      "T = [] @ [IndicesDelete INDEX_NAME, IndicesCreate INDEX_NAME s]
             @ concat (map ?flush batches') @ [IndicesRefresh INDEX_NAME]"
      "\<forall>b\<in>set batches'. fst (index_batch p b []) = None"
      "concat batches' = question_docs lines"
      by blast
    from b'(1) T have "?rest = concat (map ?flush batches') @ [IndicesRefresh INDEX_NAME]"
      by simp
    then have "bulks ?rest = bulks (concat (map ?flush batches'))"
      by (simp add: bulks_append)
    moreover have "list_all2 (\<lambda>request doc. \<exists>v. request = make_request doc v)
        (concat (bulks (concat (map ?flush batches')))) (question_docs lines)"
      using flushes_requests [OF b'(2)] b'(3) by simp
    ultimately have "list_all2 (\<lambda>request doc. \<exists>v. request = make_request doc v)
        (concat (bulks ?rest)) (question_docs lines)"
      by simp
    then show ?thesis
      unfolding list_all2_map1 by (rule list_all2_mono) auto
  qed
  show ?thesis
  proof (intro exI [of _ ?rest] conjI)
    show "snd (index_data B p s lines w)
        = w @ IndicesDelete INDEX_NAME # IndicesCreate INDEX_NAME s # ?rest"
      unfolding w1 T ..
    show "snd (index_data B p s lines (snd (index_data B p s lines w)))
        = snd (index_data B p s lines w)
            @ IndicesDelete INDEX_NAME # IndicesCreate INDEX_NAME s # ?rest"
      unfolding w1 second unfolding T by simp
    show "\<forall>name. IndicesDelete name \<notin> set ?rest" by (rule c3)
    show "\<forall>name src. IndicesCreate name src \<notin> set ?rest" by (rule c4)
    show "record_store (snd (index_data B p s lines w)) INDEX_NAME
        = Some (map stored_source (concat (bulks ?rest)))"
      unfolding w1 by (rule store)
    show "record_store (snd (index_data B p s lines w)) INDEX_NAME
        = record_store (snd (index_data B p s lines [])) INDEX_NAME"
      unfolding w1 using store [of w] store [of "[]"] run by simp
    show "fst (index_data B p s lines (snd (index_data B p s lines w)))
        = fst (index_data B p s lines w)"
      unfolding w1 second r1 by simp
    show "record_store (snd (index_data B p s lines (snd (index_data B p s lines w)))) INDEX_NAME
        = record_store (snd (index_data B p s lines w)) INDEX_NAME"
      unfolding w1 second using store [of w] store [of "w @ T"] by simp
    show "0 < B \<and> fst (index_data B p s lines w) = None \<longrightarrow>
          list_all2 (\<lambda>item doc. \<exists>v. item = stored_source (make_request doc v))
            (map stored_source (concat (bulks ?rest))) (question_docs lines)"
      unfolding r1 using c9 by blast
  qed
qed


theorem index_data_twice_leaves_same_index_witness:
  "fst (index_data 2 (\<lambda>ts. Inr (map (\<lambda>t. [1]) ts)) ''{}''
     [Parsed (JObj [(''type'', JStr ''question''), (''title'', JStr ''a'')]),
      Parsed (JObj [(''type'', JStr ''answer''), (''body'', JStr ''x'')]),
      Parsed (JObj [(''type'', JStr ''question''), (''title'', JStr ''b'')])]
     [IndicesCreate ''posts'' ''{}'', Bulk [[(''title'', JStr ''old''), (''_index'', JStr ''posts'')]]])
   = None
   \<and> (\<exists>rest.
        snd (index_data 2 (\<lambda>ts. Inr (map (\<lambda>t. [1]) ts)) ''{}''
          [Parsed (JObj [(''type'', JStr ''question''), (''title'', JStr ''a'')]),
           Parsed (JObj [(''type'', JStr ''answer''), (''body'', JStr ''x'')]),
           Parsed (JObj [(''type'', JStr ''question''), (''title'', JStr ''b'')])]
          [IndicesCreate ''posts'' ''{}'', Bulk [[(''title'', JStr ''old''), (''_index'', JStr ''posts'')]]])
        = [IndicesCreate ''posts'' ''{}'', Bulk [[(''title'', JStr ''old''), (''_index'', JStr ''posts'')]]]
            @ IndicesDelete INDEX_NAME # IndicesCreate INDEX_NAME ''{}'' # rest
      \<and> record_store (snd (index_data 2 (\<lambda>ts. Inr (map (\<lambda>t. [1]) ts)) ''{}''
          [Parsed (JObj [(''type'', JStr ''question''), (''title'', JStr ''a'')]),
           Parsed (JObj [(''type'', JStr ''answer''), (''body'', JStr ''x'')]),
           Parsed (JObj [(''type'', JStr ''question''), (''title'', JStr ''b'')])]
          [IndicesCreate ''posts'' ''{}'', Bulk [[(''title'', JStr ''old''), (''_index'', JStr ''posts'')]]]))
          INDEX_NAME
        = Some (map stored_source (concat (bulks rest)))
      \<and> length (map stored_source (concat (bulks rest))) = 2)"
proof -
  let ?p = "(\<lambda>ts. Inr (map (\<lambda>t. [1]) ts)) :: provider"
  let ?lines = "[Parsed (JObj [(''type'', JStr ''question''), (''title'', JStr ''a'')]),
      Parsed (JObj [(''type'', JStr ''answer''), (''body'', JStr ''x'')]),
      Parsed (JObj [(''type'', JStr ''question''), (''title'', JStr ''b'')])]"
  let ?w = "[IndicesCreate ''posts'' ''{}'', Bulk [[(''title'', JStr ''old''), (''_index'', JStr ''posts'')]]]"
  let ?run = "index_data 2 ?p ''{}'' ?lines ?w"
  have f: "fst ?run = None"
    by (simp add: index_data_def index_batch_def embed_text_def)
  have n: "length (question_docs ?lines) = 2" by simp
  from index_data_twice_leaves_same_index [of 2 ?p "''{}''" ?lines ?w]
  obtain rest where all:
    "snd ?run = ?w @ IndicesDelete INDEX_NAME # IndicesCreate INDEX_NAME ''{}'' # rest
    \<and> snd (index_data 2 ?p ''{}'' ?lines (snd ?run))
        = snd ?run @ IndicesDelete INDEX_NAME # IndicesCreate INDEX_NAME ''{}'' # rest
    \<and> (\<forall>name. IndicesDelete name \<notin> set rest)
    \<and> (\<forall>name src. IndicesCreate name src \<notin> set rest)
    \<and> record_store (snd ?run) INDEX_NAME = Some (map stored_source (concat (bulks rest)))
    \<and> record_store (snd ?run) INDEX_NAME
        = record_store (snd (index_data 2 ?p ''{}'' ?lines [])) INDEX_NAME
    \<and> fst (index_data 2 ?p ''{}'' ?lines (snd ?run)) = fst ?run
    \<and> record_store (snd (index_data 2 ?p ''{}'' ?lines (snd ?run))) INDEX_NAME
        = record_store (snd ?run) INDEX_NAME
    \<and> ((0::int) < 2 \<and> fst ?run = None \<longrightarrow>
          list_all2 (\<lambda>item doc. \<exists>v. item = stored_source (make_request doc v))
            (map stored_source (concat (bulks rest))) (question_docs ?lines))"
    ..
  note c1 = all [THEN conjunct1]
  note c5 = all [THEN conjunct2, THEN conjunct2, THEN conjunct2, THEN conjunct2, THEN conjunct1]
  note c9 = all [THEN conjunct2, THEN conjunct2, THEN conjunct2, THEN conjunct2,
      THEN conjunct2, THEN conjunct2, THEN conjunct2, THEN conjunct2]
  have "(0::int) < 2 \<and> fst ?run = None" using f by simp
  with c9 have "list_all2 (\<lambda>item doc. \<exists>v. item = stored_source (make_request doc v))
            (map stored_source (concat (bulks rest))) (question_docs ?lines)"
    by (rule mp)
  then have "length (map stored_source (concat (bulks rest))) = length (question_docs ?lines)"
    by (rule list_all2_lengthD)
  then have "length (map stored_source (concat (bulks rest))) = 2"
    using n by (rule trans)
  with c1 c5 have "\<exists>rest.
        snd ?run = ?w @ IndicesDelete INDEX_NAME # IndicesCreate INDEX_NAME ''{}'' # rest
      \<and> record_store (snd ?run) INDEX_NAME = Some (map stored_source (concat (bulks rest)))
      \<and> length (map stored_source (concat (bulks rest))) = 2"
    by (intro exI [of _ rest] conjI)
  with f show ?thesis by (rule conjI)
qed

section \<open>Exceptions during ingestion\<close>

text \<open>
  Claim C8. \<open>index_data\<close> has no exception handler, so a malformed line is not skipped: on
  a stream with a malformed line the run ends with an exception, and it does exactly what
  it does on the stream cut after the malformed line, nothing behind that line is read.
  When the lines before it are question and answer records, the batch size is not 0 and
  the provider returns at least one vector per text, the exception is the
  \<^verbatim>\<open>JSONDecodeError\<close> of \<^verbatim>\<open>json.loads\<close>.
\<close>

theorem malformed_line_aborts_index_data:
  "fst (index_data B p s (pre @ Malformed # post) w) \<noteq> None
   \<and> index_data B p s (pre @ Malformed # post) w = index_data B p s (pre @ [Malformed]) w
   \<and> (B \<noteq> 0 \<and> (\<forall>ts. \<exists>vs. p ts = Inr vs \<and> length ts \<le> length vs)
        \<and> (\<forall>l\<in>set pre. question_record l \<or> answer_record l)
      \<longrightarrow> fst (index_data B p s (pre @ Malformed # post) w) = Some JSONDecodeError)"
proof (intro conjI impI)
  let ?w2 = "(w @ [IndicesDelete INDEX_NAME]) @ [IndicesCreate INDEX_NAME s]"
  note m = index_loop_Malformed [of B p pre post "[]" 0 ?w2]
  show "fst (index_data B p s (pre @ Malformed # post) w) \<noteq> None"
    using m by (auto simp: index_data_def split: prod.splits option.splits)
  show "index_data B p s (pre @ Malformed # post) w = index_data B p s (pre @ [Malformed]) w"
    using m by (simp add: index_data_def)
next
  let ?w2 = "(w @ [IndicesDelete INDEX_NAME]) @ [IndicesCreate INDEX_NAME s]"
  assume a: "B \<noteq> 0 \<and> (\<forall>ts. \<exists>vs. p ts = Inr vs \<and> length ts \<le> length vs)
        \<and> (\<forall>l\<in>set pre. question_record l \<or> answer_record l)"
  obtain rl docs count w3 where loop: "index_loop B p pre [] 0 ?w2 = (rl, docs, count, w3)"
    by (metis prod_cases4)
  from a index_loop_completes [OF _ _ _ _ loop] have "rl = None" by simp
  with loop have "index_loop B p (pre @ Malformed # post) [] 0 ?w2
      = (Some JSONDecodeError, docs, count, w3)"
    by (simp add: index_loop_append)
  then show "fst (index_data B p s (pre @ Malformed # post) w) = Some JSONDecodeError"
    by (simp add: index_data_def)
qed

theorem malformed_line_aborts_index_data_witness:
  "fst (index_data 2 (\<lambda>ts. Inr (map (\<lambda>t. [1]) ts)) ''{}''
     ([Parsed (JObj [(''type'', JStr ''question''), (''title'', JStr ''a'')])]
        @ Malformed # [Parsed (JObj [(''type'', JStr ''question''), (''title'', JStr ''b'')])]) [])
   = Some JSONDecodeError"
proof -
  let ?p = "\<lambda>ts. Inr (map (\<lambda>t. [1]) ts) :: error + vector list"
  let ?pre = "[Parsed (JObj [(''type'', JStr ''question''), (''title'', JStr ''a'')])]"
  have h: "(2::int) \<noteq> 0 \<and> (\<forall>ts. \<exists>vs. ?p ts = Inr vs \<and> length ts \<le> length vs)
      \<and> (\<forall>l\<in>set ?pre. question_record l \<or> answer_record l)"
    by simp
  from malformed_line_aborts_index_data [of 2 ?p "''{}''" ?pre
      "[Parsed (JObj [(''type'', JStr ''question''), (''title'', JStr ''b'')])]" "[]"] h
  show ?thesis by blast
qed

theorem malformed_line_skipped_counterexample:
  "index_data 1 (\<lambda>ts. Inr (map (\<lambda>t. [1]) ts)) ''{}''
     [Malformed, Parsed (JObj [(''type'', JStr ''question''), (''title'', JStr ''a'')])] []
   = (Some JSONDecodeError, [IndicesDelete ''posts'', IndicesCreate ''posts'' ''{}''])
   \<and> index_data 1 (\<lambda>ts. Inr (map (\<lambda>t. [1]) ts)) ''{}''
     [Parsed (JObj [(''type'', JStr ''question''), (''title'', JStr ''a'')])] []
   = (None, [IndicesDelete ''posts'', IndicesCreate ''posts'' ''{}'', EmbedText [JStr ''a''],
        Bulk [[(''type'', JStr ''question''), (''title'', JStr ''a''), (''_op_type'', JStr ''index''),
               (''_index'', JStr ''posts''), (''title_vector'', JArr [JNum 1])]],
        IndicesRefresh ''posts''])"
  by (simp add: index_data_def index_batch_def embed_text_def make_request_def INDEX_NAME_def)

text \<open>
  Claim C9. A failure of the embedding provider on a batch (an exception, or fewer vectors
  than the batch has titles) does not stay within the batch, it ends the whole run:
  \<open>index_data\<close> returns that exception, and the failed call of the provider is the last
  call it makes, so the batch is not written, no later batch is embedded or written, and
  the index is not refreshed.
\<close>

theorem embedding_failure_aborts_index_data:
  assumes "index_data B p s lines w = (r, w')"
  shows "\<exists>calls. w' = w @ calls \<and>
     (\<forall>ts. EmbedText ts \<in> set calls \<longrightarrow>
        (\<forall>e. p ts = Inl e \<longrightarrow> r = Some e \<and> last calls = EmbedText ts)
      \<and> (\<forall>vs. p ts = Inr vs \<and> length vs < length ts \<longrightarrow>
            r = Some IndexError \<and> last calls = EmbedText ts))"
proof -
  let ?flush = "\<lambda>b. snd (index_batch p b [])"
  let ?fails = "\<lambda>ts. (\<exists>e. p ts = Inl e) \<or> (\<exists>vs. p ts = Inr vs \<and> length vs < length ts)"
  from index_data_run [OF assms]
  obtain batches tail where b:
    "w' = w @ [IndicesDelete INDEX_NAME, IndicesCreate INDEX_NAME s]
             @ concat (map ?flush batches) @ tail"
    "\<forall>b\<in>set batches. b \<noteq> [] \<and> fst (index_batch p b []) = None
          \<and> set b \<subseteq> set (question_docs lines)"
    "r = None \<longrightarrow> tail = [IndicesRefresh INDEX_NAME]"
    "\<forall>e. r = Some e \<longrightarrow> tail = [] \<or>
          (\<exists>b. b \<noteq> [] \<and> set b \<subseteq> set (question_docs lines)
              \<and> index_batch p b [] = (Some e, tail))"
    by blast
  let ?calls = "[IndicesDelete INDEX_NAME, IndicesCreate INDEX_NAME s]
             @ concat (map ?flush batches) @ tail"
  have flushed: "\<not> ?fails ts" if "EmbedText ts \<in> set (concat (map ?flush batches))" for ts
  proof -
    from that obtain b where "b \<in> set batches" "EmbedText ts \<in> set (?flush b)" by auto
    with b(2) index_batch_None [of p b]
    obtain vs where "titles_of b = Inr ts" "p ts = Inr vs" "length b \<le> length vs"
      by auto
    with titles_of_length [of b ts] show ?thesis by simp
  qed
  have "(\<forall>e. p ts = Inl e \<longrightarrow> r = Some e \<and> last ?calls = EmbedText ts)
      \<and> (\<forall>vs. p ts = Inr vs \<and> length vs < length ts \<longrightarrow>
            r = Some IndexError \<and> last ?calls = EmbedText ts)"
    if mem: "EmbedText ts \<in> set ?calls" for ts
  proof (cases "?fails ts")
    case False
    then show ?thesis by auto
  next
    case True
    with mem flushed have in_tail: "EmbedText ts \<in> set tail" by auto
    with b(3) obtain e where r: "r = Some e" by (cases r) auto
    with b(4) in_tail obtain bf where bf: "index_batch p bf [] = (Some e, tail)" by auto
    from index_batch_Some [OF bf] in_tail
    obtain ts' where ts': "titles_of bf = Inr ts'" "tail = [EmbedText ts']"
      "p ts' = Inl e \<or> (\<exists>vs. p ts' = Inr vs \<and> length vs < length bf \<and> e = IndexError)"
      by auto
    with in_tail have eq: "ts' = ts" by simp
    show ?thesis
      using r ts' eq titles_of_length [OF ts'(1)] by auto
  qed
  with b(1) show ?thesis by blast
qed

theorem embedding_failure_aborts_index_data_witness:
  "index_data 1 (\<lambda>ts. Inl ProviderError) ''{}''
     [Parsed (JObj [(''type'', JStr ''question''), (''title'', JStr ''a'')]),
      Parsed (JObj [(''type'', JStr ''question''), (''title'', JStr ''b'')])] []
   = (Some ProviderError, [IndicesDelete ''posts'', IndicesCreate ''posts'' ''{}'', EmbedText [JStr ''a'']])
   \<and> (\<exists>calls. [IndicesDelete ''posts'', IndicesCreate ''posts'' ''{}'', EmbedText [JStr ''a'']] = [] @ calls
        \<and> last calls = EmbedText [JStr ''a''])"
proof -
  have h: "index_data 1 (\<lambda>ts. Inl ProviderError) ''{}''
     [Parsed (JObj [(''type'', JStr ''question''), (''title'', JStr ''a'')]),
      Parsed (JObj [(''type'', JStr ''question''), (''title'', JStr ''b'')])] []
   = (Some ProviderError, [IndicesDelete ''posts'', IndicesCreate ''posts'' ''{}'', EmbedText [JStr ''a'']])"
    by (simp add: index_data_def index_batch_def embed_text_def INDEX_NAME_def)
  from embedding_failure_aborts_index_data [OF h] h show ?thesis
    by auto
qed

theorem embedding_failure_batch_only_counterexample:
  "index_data 1 (\<lambda>ts. if ts = [JStr ''a''] then Inl ProviderError else Inr (map (\<lambda>t. [1]) ts)) ''{}''
     [Parsed (JObj [(''type'', JStr ''question''), (''title'', JStr ''a'')]),
      Parsed (JObj [(''type'', JStr ''question''), (''title'', JStr ''b'')])] []
   = (Some ProviderError, [IndicesDelete ''posts'', IndicesCreate ''posts'' ''{}'', EmbedText [JStr ''a'']])"
  by (simp add: index_data_def index_batch_def embed_text_def INDEX_NAME_def)

section \<open>The hits of a query\<close>

text \<open>
  Claim C1. Whenever \<open>handle_query\<close> prints hits for a query text, the query vector \<open>q\<close> is
  the first vector the provider returns for that text, and the hits are records of the
  index: at most \<open>SEARCH_SIZE\<close> of them, pairwise different, in descending order of score,
  the score printed for a record with vector \<open>v\<close> being \<open>cosineSimilarity q v + 1.0\<close> (the
  shifted value, as the store returned it), and every record of the index that is not
  among the hits has a shifted score no greater than that of any hit. Here
  \<open>cosineSimilarity\<close> is the store's built-in, the parameter \<open>cs\<close>.
\<close>

theorem handle_query_ranks_by_shifted_cosine:
  assumes "handle_query p cs query_text w = (Inr hits, w')"
  shows "\<exists>q rest items.
      p [JStr query_text] = Inr (q # rest)
    \<and> record_store w INDEX_NAME = Some items
    \<and> length hits = min SEARCH_SIZE (length items)
    \<and> sorted_wrt (\<lambda>h h'. hit_score h' \<le> hit_score h) hits
    \<and> distinct (map hit_id hits)
    \<and> (\<forall>h\<in>set hits. hit_id h < length items
         \<and> (\<exists>j v. map_of (items ! hit_id h) ''title_vector'' = Some j
                \<and> val_of_json j = Some (Vec v) \<and> hit_score h = cs q v + 1.0)
         \<and> hit_source h = AList.restrict {''title'', ''body''} (items ! hit_id h))
    \<and> (\<forall>i<length items. i \<notin> hit_id ` set hits \<longrightarrow>
         (\<exists>j v. map_of (items ! i) ''title_vector'' = Some j \<and> val_of_json j = Some (Vec v)
              \<and> (\<forall>h\<in>set hits. cs q v + 1.0 \<le> hit_score h)))"
proof -
  from handle_query_Inr [OF assms] obtain q rest where
    q: "p [JStr query_text] = Inr (q # rest)"
    and search: "client_search cs (record_store w) INDEX_NAME
          \<lparr>size = SEARCH_SIZE,
           query = ScriptScore MatchAll script_source [(''query_vector'', JArr (map JNum q))],
           source_includes = [''title'', ''body'']\<rparr> = Inr hits"
    by blast
  let ?query = "ScriptScore MatchAll script_source [(''query_vector'', JArr (map JNum q))]"
  let ?body = "\<lparr>size = SEARCH_SIZE, query = ?query, source_includes = [''title'', ''body'']\<rparr>"
  let ?f = "\<lambda>h. - hit_score h"
  from client_search_Inr [OF search] obtain items scored where
    items: "record_store w INDEX_NAME = Some items"
    and scored: "score_hits cs ?body items 0 = Some scored"
    and hits: "hits = take SEARCH_SIZE (sort_key ?f scored)"
    by auto
  let ?S = "sort_key ?f scored"
  have "query_matches (query ?body) = (\<lambda>d. True)" by (simp add: fun_eq_iff)
  from score_hits_nth [OF this scored]
  have len: "length scored = length items"
    and id: "\<And>k. k < length items \<Longrightarrow> hit_id (scored ! k) = k"
    and sc: "\<And>k. k < length items \<Longrightarrow> query_score cs ?query (items ! k) = Some (hit_score (scored ! k))"
    and src: "\<And>k. k < length items \<Longrightarrow>
        hit_source (scored ! k) = AList.restrict {''title'', ''body''} (items ! k)"
    by auto
  have vec: "\<exists>j v. map_of (items ! k) ''title_vector'' = Some j \<and> val_of_json j = Some (Vec v)
      \<and> hit_score (scored ! k) = cs q v + 1" if "k < length items" for k
    using query_score_script_source [OF sc [OF that]] by blast
  have ids: "map hit_id scored = [0..<length items]"
    using len id by (intro nth_equalityI) auto
  have in_scored: "\<exists>k<length items. h = scored ! k" if "h \<in> set scored" for h
    using that len by (auto simp: in_set_conv_nth)
  have sub: "set hits \<subseteq> set scored"
    unfolding hits using set_take_subset [of SEARCH_SIZE ?S] by simp
  have c1: "length hits = min SEARCH_SIZE (length items)"
    unfolding hits using len by simp
  have "sorted (map ?f ?S)" by (rule sorted_sort_key)
  then have "sorted (map ?f hits)"
    unfolding hits by (simp add: take_map [symmetric] sorted_wrt_take del: take_map)
  then have c2: "sorted_wrt (\<lambda>h h'. hit_score h' \<le> hit_score h) hits"
    by (simp add: sorted_map)
  have "distinct (map hit_id scored)" unfolding ids by simp
  then have "distinct scored" "inj_on hit_id (set scored)"
    by (simp_all add: distinct_map)
  then have "distinct (map hit_id ?S)"
    by (simp add: distinct_map)
  then have c3: "distinct (map hit_id hits)"
    unfolding hits by (simp add: take_map [symmetric] del: take_map)
  have c4: "hit_id h < length items
         \<and> (\<exists>j v. map_of (items ! hit_id h) ''title_vector'' = Some j
                \<and> val_of_json j = Some (Vec v) \<and> hit_score h = cs q v + 1.0)
         \<and> hit_source h = AList.restrict {''title'', ''body''} (items ! hit_id h)"
    if "h \<in> set hits" for h
  proof -
    from that sub in_scored obtain k where k: "k < length items" "h = scored ! k" by blast
    with id [OF k(1)] vec [OF k(1)] src [OF k(1)] show ?thesis by simp
  qed
  have c5: "\<exists>j v. map_of (items ! i) ''title_vector'' = Some j \<and> val_of_json j = Some (Vec v)
              \<and> (\<forall>h\<in>set hits. cs q v + 1.0 \<le> hit_score h)"
    if i: "i < length items" and out: "i \<notin> hit_id ` set hits" for i
  proof -
    from vec [OF i] obtain j v where jv: "map_of (items ! i) ''title_vector'' = Some j"
      "val_of_json j = Some (Vec v)" "hit_score (scored ! i) = cs q v + 1"
      by blast
    have "scored ! i \<in> set ?S" using i len by simp
    then have "scored ! i \<in> set (take SEARCH_SIZE ?S) \<union> set (drop SEARCH_SIZE ?S)"
      by (simp only: set_append [symmetric] append_take_drop_id)
    moreover have "scored ! i \<notin> set (take SEARCH_SIZE ?S)"
      using out id [OF i] unfolding hits by force
    ultimately have dropped: "scored ! i \<in> set (drop SEARCH_SIZE ?S)" by simp
    have "cs q v + 1.0 \<le> hit_score h" if "h \<in> set hits" for h
    proof -
      from that have "h \<in> set (take SEARCH_SIZE ?S)" unfolding hits .
      from sorted_take_drop_le [OF \<open>sorted (map ?f ?S)\<close> this dropped]
      show ?thesis using jv(3) by simp
    qed
    with jv show ?thesis by blast
  qed
  show ?thesis
    using q items c1 c2 c3 c4 c5 by blast
qed

theorem handle_query_ranks_by_shifted_cosine_witness:
  "fst (handle_query (\<lambda>ts. Inr [[1, 0]]) (\<lambda>a b. sum_list (map2 (*) a b)) ''q''
     [IndicesCreate ''posts'' ''{}'',
      Bulk [[(''title'', JStr ''a''), (''_index'', JStr ''posts''), (''title_vector'', JArr [JNum 0, JNum 1])],
            [(''title'', JStr ''b''), (''_index'', JStr ''posts''), (''title_vector'', JArr [JNum 1, JNum 0])]]])
   = Inr [Hit 1 2 [(''title'', JStr ''b'')], Hit 0 1 [(''title'', JStr ''a'')]]
   \<and> sorted_wrt (\<lambda>h h'. hit_score h' \<le> hit_score h)
        [Hit 1 2 [(''title'', JStr ''b'')], Hit 0 1 [(''title'', JStr ''a'')]]
   \<and> (\<exists>items. record_store
     [IndicesCreate ''posts'' ''{}'',
      Bulk [[(''title'', JStr ''a''), (''_index'', JStr ''posts''), (''title_vector'', JArr [JNum 0, JNum 1])],
            [(''title'', JStr ''b''), (''_index'', JStr ''posts''), (''title_vector'', JArr [JNum 1, JNum 0])]]]
       INDEX_NAME = Some items
     \<and> length [Hit 1 2 [(''title'', JStr ''b'')], Hit 0 1 [(''title'', JStr ''a'')]]
         = min SEARCH_SIZE (length items))"
proof -
  let ?p = "(\<lambda>ts. Inr [[1, 0]]) :: provider"
  let ?cs = "(\<lambda>a b. sum_list (map2 (*) a b)) :: vector \<Rightarrow> vector \<Rightarrow> real"
  let ?w = "[IndicesCreate ''posts'' ''{}'',
      Bulk [[(''title'', JStr ''a''), (''_index'', JStr ''posts''), (''title_vector'', JArr [JNum 0, JNum 1])],
            [(''title'', JStr ''b''), (''_index'', JStr ''posts''), (''title_vector'', JArr [JNum 1, JNum 0])]]]"
  let ?hits = "[Hit 1 2 [(''title'', JStr ''b'')], Hit 0 1 [(''title'', JStr ''a'')]]"
  let ?run = "handle_query ?p ?cs ''q'' ?w"
  have f: "fst ?run = Inr ?hits"
    by (simp add: handle_query_def embed_text_def client_search_def record_store_def
        bulk_item_def stored_source_def script_source_def SEARCH_SIZE_def INDEX_NAME_def)
  have "?run = (fst ?run, snd ?run)" by simp
  then have h: "?run = (Inr ?hits, snd ?run)" by (simp only: f)
  from handle_query_ranks_by_shifted_cosine [OF h]
  obtain q rest items where all: "?p [JStr ''q''] = Inr (q # rest)
    \<and> record_store ?w INDEX_NAME = Some items
    \<and> length ?hits = min SEARCH_SIZE (length items)
    \<and> sorted_wrt (\<lambda>h h'. hit_score h' \<le> hit_score h) ?hits
    \<and> distinct (map hit_id ?hits)
    \<and> (\<forall>h\<in>set ?hits. hit_id h < length items
         \<and> (\<exists>j v. map_of (items ! hit_id h) ''title_vector'' = Some j
                \<and> val_of_json j = Some (Vec v) \<and> hit_score h = ?cs q v + 1.0)
         \<and> hit_source h = AList.restrict {''title'', ''body''} (items ! hit_id h))
    \<and> (\<forall>i<length items. i \<notin> hit_id ` set ?hits \<longrightarrow>
         (\<exists>j v. map_of (items ! i) ''title_vector'' = Some j \<and> val_of_json j = Some (Vec v)
              \<and> (\<forall>h\<in>set ?hits. ?cs q v + 1.0 \<le> hit_score h)))"
    by (elim exE)
  note i = all [THEN conjunct2, THEN conjunct1]
  note l = all [THEN conjunct2, THEN conjunct2, THEN conjunct1]
  note srt = all [THEN conjunct2, THEN conjunct2, THEN conjunct2, THEN conjunct1]
  from i l have "\<exists>items. record_store ?w INDEX_NAME = Some items
     \<and> length ?hits = min SEARCH_SIZE (length items)"
    by blast
  with f srt show ?thesis by (intro conjI)
qed

end
